theory Spec2Isabelle
  imports Complex_Main "HOL-Library.Sublist" "HOL-Library.Log_Nat"
begin

chapter \<open>The Spider class of spider.py: link extraction, URL clean-up, scrolling, XPath enumeration\<close>

text \<open>
  The development follows \<^verbatim>\<open>src/spider.py\<close>. Every method of the class \<^verbatim>\<open>Spider\<close> that a
  statement below is about is a HOL function of the same name. Python exceptions are values
  of the type \<open>error\<close>, a call that never returns has the value \<open>None\<close> of an option
  type, the browser session is an explicit state, and what the program asks of Selenium,
  BeautifulSoup, \<^verbatim>\<open>validators\<close> and \<^verbatim>\<open>urllib.parse\<close> is written out as far as the
  statements need it.
\<close>

section \<open>Model\<close>
subsection \<open>Python values and string primitives\<close>

text \<open>The exceptions that the modelled methods can raise.\<close>

datatype error = IndexError | UnboundLocalError | TypeError | ValueError

text \<open>
  A Python string is a \<open>string\<close>; a \<open>char\<close> stands for the code point of the same
  number (0 to 255).
\<close>

text \<open>\<^verbatim>\<open>xs[i]\<close> for a non-negative index: IndexError out of range.\<close>

definition subscript :: "'a list \<Rightarrow> nat \<Rightarrow> error + 'a" where
  "subscript xs i = (if i < length xs then Inr (xs ! i) else Inl IndexError)"

definition digit_char :: "nat \<Rightarrow> char" where
  "digit_char d = ''0123456789'' ! d"

text \<open>\<^verbatim>\<open>str(n)\<close> for a non-negative integer: its decimal digits.\<close>

function str :: "nat \<Rightarrow> string" where
  "str n = (if n < 10 then [digit_char n] else str (n div 10) @ [digit_char (n mod 10)])"
  by pat_completeness auto
termination
  by (relation "measure id") auto

declare str.simps [simp del]

text \<open>
  \<^verbatim>\<open>s.split(sep)\<close> for a non-empty separator: the pieces between the occurrences of
  \<open>sep\<close>, found from left to right without overlap. \<open>cur\<close> holds the current piece,
  reversed.
\<close>

function split_from :: "string \<Rightarrow> string \<Rightarrow> string \<Rightarrow> string list" where
  "split_from sep cur [] = [rev cur]"
| "split_from sep cur (c # cs) =
     (if sep \<noteq> [] \<and> prefix sep (c # cs)
      then rev cur # split_from sep [] (drop (length sep) (c # cs))
      else split_from sep (c # cur) cs)"
  by pat_completeness auto
termination
  by (relation "measure (\<lambda>(sep, cur, s). length s)") auto

definition split :: "string \<Rightarrow> string \<Rightarrow> string list" where
  "split s sep = split_from sep [] s"

text \<open>\<^verbatim>\<open>sub in s\<close> on strings: \<open>sub\<close> occurs in \<open>s\<close> as a contiguous piece.\<close>

fun contains :: "string \<Rightarrow> string \<Rightarrow> bool" where
  "contains [] sub = (sub = [])"
| "contains (c # cs) sub = (prefix sub (c # cs) \<or> contains cs sub)"

subsection \<open>The Selenium session\<close>

text \<open>
  The browser is outside the program. A session is a value of a type \<open>'s\<close>, and the
  calls the program makes on \<^verbatim>\<open>self.selenium_driver\<close> are the fields of a record of
  functions on it:
  \<^item> \<open>wd_current_url\<close>: the property \<^verbatim>\<open>current_url\<close>;
  \<^item> \<open>wd_get\<close>: \<^verbatim>\<open>get(url)\<close>, giving whether it raised and the session afterwards;
  \<^item> \<open>wd_find_element\<close>: \<^verbatim>\<open>find_element(By.XPATH, path)\<close>, \<open>None\<close> where Selenium
    raises NoSuchElementException (it never returns Python's \<^verbatim>\<open>None\<close>);
  \<^item> \<open>wd_scroll_height\<close>: \<^verbatim>\<open>execute_script("return document.body.scrollHeight")\<close>;
  \<^item> \<open>wd_performance_entries\<close>: the length of
    \<^verbatim>\<open>execute_script("return window.performance.getEntries();")\<close>;
  \<^item> \<open>wd_scroll_to\<close>: \<^verbatim>\<open>execute_script("window.scrollTo(x, y)")\<close>;
  \<^item> \<open>wd_sleep\<close>: what the page does while the program is in \<^verbatim>\<open>time.sleep(n)\<close>.
\<close>

record ('s, 'e) webdriver =
  wd_current_url :: "'s \<Rightarrow> string"
  wd_get :: "string \<Rightarrow> 's \<Rightarrow> bool \<times> 's"
  wd_find_element :: "'s \<Rightarrow> string \<Rightarrow> 'e option"
  wd_scroll_height :: "'s \<Rightarrow> int"
  wd_performance_entries :: "'s \<Rightarrow> nat"
  wd_scroll_to :: "rat \<Rightarrow> rat \<Rightarrow> 's \<Rightarrow> 's"
  wd_sleep :: "nat \<Rightarrow> 's \<Rightarrow> 's"

text \<open>
  \<^verbatim>\<open>__optimize_selenium_driver__\<close> (lines 57 to 77): the page is fetched only when the
  session is not already on it; an exception of \<^verbatim>\<open>get\<close> is caught and returned, not
  raised. The result is whether an exception was returned, and the session.
\<close>

definition optimize_selenium_driver ::
  "('s, 'e) webdriver \<Rightarrow> 's \<Rightarrow> string \<Rightarrow> bool \<times> 's" where
  "optimize_selenium_driver wd s webpage_url =
     (if wd_current_url wd s \<noteq> webpage_url then wd_get wd webpage_url s else (False, s))"

subsection \<open>get_elements_xpaths (lines 207 to 243)\<close>

text \<open>
  The local variable \<^verbatim>\<open>element\<close> is unbound (\<open>None\<close>) until the first assignment;
  afterwards it holds a Python value, which is \<^verbatim>\<open>None\<close> or a WebElement.
\<close>

datatype 'e pyval = PyNone | WebElement 'e

text \<open>
  The \<^verbatim>\<open>while True\<close> loop of lines 228 to 241. One pass: build \<^verbatim>\<open>current_path\<close> from
  the first two pieces of the template (IndexError when there is no second piece); look
  the element up, and on NoSuchElementException \<^verbatim>\<open>pass\<close>, which leaves \<^verbatim>\<open>element\<close> as
  it was; then test \<^verbatim>\<open>element != None\<close>: reading an unbound \<^verbatim>\<open>element\<close> raises
  UnboundLocalError, a WebElement differs from \<^verbatim>\<open>None\<close> and is appended, and
  \<^verbatim>\<open>None\<close> breaks out of the loop with the list. The loop has no other exit, so the
  function is partial: \<open>None\<close> is a run that never returns. \<open>find_element\<close> is the
  lookup in the document as loaded; the document does not change during the loop.
\<close>

partial_function (option) xpaths_loop ::
  "(string \<Rightarrow> 'e option) \<Rightarrow> string list \<Rightarrow> nat \<Rightarrow> 'e pyval option \<Rightarrow> 'e list
     \<Rightarrow> (error + 'e list) option" where
  "xpaths_loop find_element path_of_elements index element list_of_elements =
     (case subscript path_of_elements 0 of
        Inl err \<Rightarrow> Some (Inl err)
      | Inr p0 \<Rightarrow>
     (case subscript path_of_elements 1 of
        Inl err \<Rightarrow> Some (Inl err)
      | Inr p1 \<Rightarrow>
          let current_path = p0 @ ''['' @ str index @ '']'' @ p1;
              element' = (case find_element current_path of
                            Some e \<Rightarrow> Some (WebElement e)
                          | None \<Rightarrow> element)
          in (case element' of
                None \<Rightarrow> Some (Inl UnboundLocalError)
              | Some PyNone \<Rightarrow> Some (Inr list_of_elements)
              | Some (WebElement e) \<Rightarrow>
                  xpaths_loop find_element path_of_elements (index + 1) element'
                    (list_of_elements @ [e]))))"

definition get_elements_xpaths ::
  "('s, 'e) webdriver \<Rightarrow> 's \<Rightarrow> string \<Rightarrow> string \<Rightarrow> (error + 'e list) option" where
  "get_elements_xpaths wd s webpage xpath =
     (let list_of_elements = [];
          path_of_elements = split xpath ''[INDEX]'';
          s' = snd (optimize_selenium_driver wd s webpage);
          index = 1
      in xpaths_loop (wd_find_element wd s') path_of_elements index None list_of_elements)"

subsection \<open>urllib.parse: quote, urlparse, urljoin\<close>

text \<open>
  The standard library functions that \<^verbatim>\<open>modify_verify_url\<close> calls, after CPython 3.11's
  \<^verbatim>\<open>Lib/urllib/parse.py\<close>. They are string functions without state.
\<close>

definition hex_digit :: "nat \<Rightarrow> char" where
  "hex_digit d = ''0123456789ABCDEF'' ! d"

definition ascii_upper :: string where
  "ascii_upper = ''ABCDEFGHIJKLMNOPQRSTUVWXYZ''"

definition ascii_lower :: string where
  "ascii_lower = ''abcdefghijklmnopqrstuvwxyz''"

definition ascii_digits :: string where
  "ascii_digits = ''0123456789''"

text \<open>\<^verbatim>\<open>_ALWAYS_SAFE\<close>: the unreserved characters, never quoted.\<close>

definition always_safe :: "char \<Rightarrow> bool" where
  "always_safe c = (c \<in> set (ascii_upper @ ascii_lower @ ascii_digits @ ''_.-~''))"

text \<open>One byte as \<^verbatim>\<open>'%{:02X}'.format(b)\<close>.\<close>

definition percent :: "nat \<Rightarrow> string" where
  "percent b = [CHR ''%'', hex_digit (b div 16), hex_digit (b mod 16)]"

text \<open>
  \<^verbatim>\<open>quote(i)\<close> for a string \<open>i\<close> of one character, with the default \<^verbatim>\<open>safe='/'\<close>: the
  character is encoded in UTF-8 (one byte below 128, two bytes from 128 to 255), and a
  byte is kept when it is always safe or \<^verbatim>\<open>/\<close> and written as \<^verbatim>\<open>%XX\<close> otherwise.
\<close>

definition quote :: "char \<Rightarrow> string" where
  "quote c =
     (let n = (of_char c :: nat)
      in if n < 128 then (if always_safe c \<or> c = CHR ''/'' then [c] else percent n)
         else percent (192 + n div 64) @ percent (128 + n mod 64))"

definition uses_relative :: "string list" where
  "uses_relative = ['''', ''ftp'', ''http'', ''gopher'', ''nntp'', ''imap'', ''wais'', ''file'',
     ''https'', ''shttp'', ''mms'', ''prospero'', ''rtsp'', ''rtspu'', ''sftp'', ''svn'',
     ''svn+ssh'', ''ws'', ''wss'']"

definition uses_netloc :: "string list" where
  "uses_netloc = ['''', ''ftp'', ''http'', ''gopher'', ''nntp'', ''telnet'', ''imap'', ''wais'',
     ''file'', ''mms'', ''https'', ''shttp'', ''snews'', ''prospero'', ''rtsp'', ''rtspu'',
     ''rsync'', ''svn'', ''svn+ssh'', ''sftp'', ''nfs'', ''git'', ''git+ssh'', ''ws'', ''wss'']"

definition uses_params :: "string list" where
  "uses_params = ['''', ''ftp'', ''hdl'', ''prospero'', ''http'', ''imap'', ''https'', ''shttp'',
     ''rtsp'', ''rtspu'', ''sip'', ''sips'', ''mms'', ''sftp'', ''tel'']"

definition scheme_char :: "char \<Rightarrow> bool" where
  "scheme_char c = (c \<in> set (ascii_lower @ ascii_upper @ ascii_digits @ ''+-.''))"

definition ascii_alpha :: "char \<Rightarrow> bool" where
  "ascii_alpha c = (c \<in> set (ascii_upper @ ascii_lower))"

text \<open>\<^verbatim>\<open>lower()\<close> on the characters of a scheme, which are ASCII.\<close>

definition lower :: "char \<Rightarrow> char" where
  "lower c = (case map_of (zip ascii_upper ascii_lower) c of Some l \<Rightarrow> l | None \<Rightarrow> c)"

text \<open>\<^verbatim>\<open>_WHATWG_C0_CONTROL_OR_SPACE\<close>: the code points 0 to 32.\<close>

definition c0_control_or_space :: "char \<Rightarrow> bool" where
  "c0_control_or_space c = ((of_char c :: nat) \<le> 32)"

text \<open>\<^verbatim>\<open>_UNSAFE_URL_BYTES_TO_REMOVE\<close>: tab, carriage return and line feed.\<close>

definition unsafe_url_byte :: "char \<Rightarrow> bool" where
  "unsafe_url_byte c = ((of_char c :: nat) \<in> {9, 10, 13})"

text \<open>\<^verbatim>\<open>s.split(c, 1)\<close> as a pair, for a string that holds \<open>c\<close>.\<close>

definition split_once :: "string \<Rightarrow> char \<Rightarrow> string \<times> string" where
  "split_once s c = (takeWhile (\<lambda>x. x \<noteq> c) s, drop 1 (dropWhile (\<lambda>x. x \<noteq> c) s))"

text \<open>\<^verbatim>\<open>sep.join(xs)\<close>.\<close>

fun join :: "string \<Rightarrow> string list \<Rightarrow> string" where
  "join sep [] = []"
| "join sep [x] = x"
| "join sep (x # y # ys) = x @ sep @ join sep (y # ys)"

text \<open>
  \<^verbatim>\<open>urlsplit(url, scheme)\<close>: (scheme, netloc, path, query, fragment). Leading control
  characters and spaces are stripped and tab, CR and LF removed; a prefix up to the first
  colon is the scheme when it starts with a letter and consists of scheme characters; an
  authority follows \<^verbatim>\<open>//\<close> and ends before the first of \<^verbatim>\<open>/?#\<close>; then the fragment and
  the query are cut off. An authority with one square bracket and not the other raises
  ValueError. The library makes two more checks of the authority, and each raises
  ValueError: \<^verbatim>\<open>_check_bracketed_host\<close> (from 3.11.4 on: a host in square brackets must
  be an IPv6 or IPvFuture literal) and \<^verbatim>\<open>_checknetloc\<close> (no character whose NFKC form
  holds one of \<^verbatim>\<open>/?#@:\<close>, which only a non-ASCII character can have). They are not
  spelled out: \<open>netloc_ok\<close> says whether an authority with a bracketed host or a
  non-ASCII character passes them, and it is a parameter of \<open>urlsplit\<close> and of every
  function that calls it. An authority with neither is not shown to \<open>netloc_ok\<close>.
\<close>

definition is_ascii :: "char \<Rightarrow> bool" where
  "is_ascii c = ((of_char c :: nat) < 128)"

definition urlsplit ::
  "(string \<Rightarrow> bool) \<Rightarrow> string \<Rightarrow> string
     \<Rightarrow> error + (string \<times> string \<times> string \<times> string \<times> string)" where
  "urlsplit netloc_ok url0 scheme0 =
     (let url1 = filter (\<lambda>c. \<not> unsafe_url_byte c) (dropWhile c0_control_or_space url0);
          scheme1 = filter (\<lambda>c. \<not> unsafe_url_byte c)
                      (rev (dropWhile c0_control_or_space
                         (rev (dropWhile c0_control_or_space scheme0))));
          pre = takeWhile (\<lambda>c. c \<noteq> CHR '':'') url1;
          has_scheme = (CHR '':'' \<in> set url1 \<and> pre \<noteq> [] \<and> ascii_alpha (hd pre)
                          \<and> list_all scheme_char pre);
          scheme = (if has_scheme then map lower pre else scheme1);
          url2 = (if has_scheme then drop (length pre + 1) url1 else url1);
          has_netloc = (take 2 url2 = ''//'');
          netloc = (if has_netloc
                    then takeWhile (\<lambda>c. c \<notin> set ''/?#'') (drop 2 url2) else []);
          url3 = (if has_netloc
                  then dropWhile (\<lambda>c. c \<notin> set ''/?#'') (drop 2 url2) else url2)
      in if has_netloc
            \<and> (((CHR ''['' \<in> set netloc \<or> \<not> list_all is_ascii netloc) \<and> \<not> netloc_ok netloc)
                 \<or> (CHR ''['' \<in> set netloc) \<noteq> (CHR '']'' \<in> set netloc))
         then Inl ValueError
         else
           let has_fragment = (CHR ''#'' \<in> set url3);
               fragment = (if has_fragment then snd (split_once url3 CHR ''#'') else []);
               url4 = (if has_fragment then fst (split_once url3 CHR ''#'') else url3);
               has_query = (CHR ''?'' \<in> set url4);
               query = (if has_query then snd (split_once url4 CHR ''?'') else []);
               url5 = (if has_query then fst (split_once url4 CHR ''?'') else url4)
           in Inr (scheme, netloc, url5, query, fragment))"

text \<open>
  \<^verbatim>\<open>_splitparams(url)\<close>, called for a path that holds a semicolon: the parameters are
  cut from the last path segment.
\<close>

definition splitparams :: "string \<Rightarrow> string \<times> string" where
  "splitparams url =
     (if CHR ''/'' \<in> set url
      then let seg = rev (takeWhile (\<lambda>c. c \<noteq> CHR ''/'') (rev url));
               front = take (length url - length seg) url
           in if CHR '';'' \<in> set seg
              then (front @ fst (split_once seg CHR '';''), snd (split_once seg CHR '';''))
              else (url, [])
      else split_once url CHR '';'')"

record parse_result =
  url_scheme :: string
  url_netloc :: string
  url_path :: string
  url_params :: string
  url_query :: string
  url_fragment :: string

definition urlparse :: "(string \<Rightarrow> bool) \<Rightarrow> string \<Rightarrow> string \<Rightarrow> error + parse_result" where
  "urlparse netloc_ok url scheme =
     (case urlsplit netloc_ok url scheme of
        Inl err \<Rightarrow> Inl err
      | Inr (scheme', netloc, path, query, fragment) \<Rightarrow>
          let with_params = (scheme' \<in> set uses_params \<and> CHR '';'' \<in> set path);
              path' = (if with_params then fst (splitparams path) else path);
              params = (if with_params then snd (splitparams path) else [])
          in Inr \<lparr> url_scheme = scheme', url_netloc = netloc, url_path = path',
                   url_params = params, url_query = query, url_fragment = fragment \<rparr>)"

definition urlunsplit :: "string \<Rightarrow> string \<Rightarrow> string \<Rightarrow> string \<Rightarrow> string \<Rightarrow> string" where
  "urlunsplit scheme netloc url query fragment =
     (let url1 = (if netloc \<noteq> [] \<or> (scheme \<noteq> [] \<and> scheme \<in> set uses_netloc \<and> take 2 url \<noteq> ''//'')
                  then ''//'' @ netloc @ (if url \<noteq> [] \<and> take 1 url \<noteq> ''/'' then ''/'' @ url else url)
                  else url);
          url2 = (if scheme \<noteq> [] then scheme @ '':'' @ url1 else url1);
          url3 = (if query \<noteq> [] then url2 @ ''?'' @ query else url2)
      in if fragment \<noteq> [] then url3 @ ''#'' @ fragment else url3)"

definition urlunparse :: "parse_result \<Rightarrow> string" where
  "urlunparse p =
     urlunsplit (url_scheme p) (url_netloc p)
       (if url_params p \<noteq> [] then url_path p @ '';'' @ url_params p else url_path p)
       (url_query p) (url_fragment p)"

text \<open>One step of the loop over the path segments in \<^verbatim>\<open>urljoin\<close>.\<close>

definition resolve_segment :: "string \<Rightarrow> string list \<Rightarrow> string list" where
  "resolve_segment seg resolved_path =
     (if seg = ''..'' then butlast resolved_path
      else if seg = ''.'' then resolved_path
      else resolved_path @ [seg])"

text \<open>\<^verbatim>\<open>urljoin(base, url)\<close>: relative resolution after RFC 3986.\<close>

definition urljoin :: "(string \<Rightarrow> bool) \<Rightarrow> string \<Rightarrow> string \<Rightarrow> error + string" where
  "urljoin netloc_ok base url =
     (if base = [] then Inr url
      else if url = [] then Inr base
      else
        case urlparse netloc_ok base [] of
          Inl err \<Rightarrow> Inl err
        | Inr b \<Rightarrow>
        (case urlparse netloc_ok url (url_scheme b) of
          Inl err \<Rightarrow> Inl err
        | Inr u \<Rightarrow>
            if url_scheme u \<noteq> url_scheme b \<or> url_scheme u \<notin> set uses_relative then Inr url
            else if url_scheme u \<in> set uses_netloc \<and> url_netloc u \<noteq> [] then Inr (urlunparse u)
            else
              let netloc = (if url_scheme u \<in> set uses_netloc then url_netloc b else url_netloc u)
              in if url_path u = [] \<and> url_params u = []
                 then Inr (urlunparse (u\<lparr> url_netloc := netloc, url_path := url_path b,
                              url_params := url_params b,
                              url_query := (if url_query u = [] then url_query b else url_query u) \<rparr>))
                 else
                   let base_parts0 = split (url_path b) ''/'';
                       base_parts = (if last base_parts0 \<noteq> [] then butlast base_parts0
                                     else base_parts0);
                       joined = base_parts @ split (url_path u) ''/'';
                       segments = (if take 1 (url_path u) = ''/'' then split (url_path u) ''/''
                                   else take 1 joined
                                        @ filter (\<lambda>seg. seg \<noteq> []) (butlast (drop 1 joined))
                                        @ (if 2 \<le> length joined then [last joined] else []));
                       resolved_path0 = fold resolve_segment segments [];
                       resolved_path = (if last segments \<in> {''.'', ''..''}
                                        then resolved_path0 @ [[]] else resolved_path0);
                       path = (if join ''/'' resolved_path = [] then ''/''
                               else join ''/'' resolved_path)
                   in Inr (urlunparse (u\<lparr> url_netloc := netloc, url_path := path \<rparr>))))"

subsection \<open>validators.url\<close>

text \<open>
  \<^verbatim>\<open>validators.url\<close> belongs to a third-party package. The program only uses the truth
  value of its result, on strings, so the validator is a parameter \<open>valid\<close> of type
  \<open>string \<Rightarrow> bool\<close> of the functions below, and the general statements hold for every
  validator (with the hypothesis they name). To evaluate the program at concrete inputs,
  \<open>url_shape\<close> stands in for it: it accepts \<^verbatim>\<open>scheme://host\<close> followed by nothing or by
  a tail that starts with one of \<^verbatim>\<open>/?#\<close>, where the scheme is http, https or ftp, the
  host consists of dot-separated labels of letters, digits and hyphens with at least one
  dot, and the tail holds printable ASCII without spaces. On every string evaluated in
  this theory it answers as \<^verbatim>\<open>validators.url\<close> does.
\<close>

definition host_char :: "char \<Rightarrow> bool" where
  "host_char c = (c \<in> set (ascii_lower @ ascii_upper @ ascii_digits @ ''-''))"

definition printable :: "char \<Rightarrow> bool" where
  "printable c = (33 \<le> (of_char c :: nat) \<and> (of_char c :: nat) \<le> 126)"

definition url_shape :: "string \<Rightarrow> bool" where
  "url_shape s =
     (let scheme = takeWhile (\<lambda>c. c \<noteq> CHR '':'') s;
          rest = drop (length scheme) s;
          host = takeWhile (\<lambda>c. c \<notin> set ''/?#'') (drop 3 rest);
          tail = dropWhile (\<lambda>c. c \<notin> set ''/?#'') (drop 3 rest);
          labels = split host ''.''
      in scheme \<in> {''http'', ''https'', ''ftp''}
         \<and> take 3 rest = ''://''
         \<and> 2 \<le> length labels
         \<and> list_all (\<lambda>l. l \<noteq> [] \<and> list_all host_char l) labels
         \<and> list_all printable tail)"

text \<open>
  In the same way \<open>loopback_only\<close> stands in for the two checks of an authority behind
  \<open>netloc_ok\<close> where a statement is evaluated: of the authorities with a bracketed host
  or a non-ASCII character it accepts \<^verbatim>\<open>[::1]\<close> alone. The only such authority
  evaluated in this theory is \<^verbatim>\<open>[x]\<close>, which the library rejects as well.
\<close>

definition loopback_only :: "string \<Rightarrow> bool" where
  "loopback_only netloc = (netloc = ''[::1]'')"

subsection \<open>modify_verify_url (lines 174 to 205)\<close>

text \<open>The four \<^verbatim>\<open>return\<close> statements of the method, by their lines.\<close>

datatype exit = Line_188 | Line_201 | Line_203 | Line_205

text \<open>
  The argument \<open>url\<close> is a Python string or \<^verbatim>\<open>None\<close>. On \<^verbatim>\<open>None\<close> the method raises
  TypeError: either \<^verbatim>\<open>validators.url(None)\<close> raises it (releases that match a regular
  expression against the value), or it is falsy and the iteration over \<^verbatim>\<open>url\<close> of line
  190 raises it. On a string the method is followed statement by statement; the result
  names the \<^verbatim>\<open>return\<close> that was taken. An exception of \<^verbatim>\<open>urljoin\<close> or \<^verbatim>\<open>urlparse\<close>
  is not caught.
\<close>

definition modify_verify_url_exit ::
  "(string \<Rightarrow> bool) \<Rightarrow> (string \<Rightarrow> bool) \<Rightarrow> string \<Rightarrow> string option
     \<Rightarrow> error + (exit \<times> string)" where
  "modify_verify_url_exit valid netloc_ok root' url =
     (case url of
        None \<Rightarrow> Inl TypeError
      | Some url \<Rightarrow>
          if valid url then Inr (Line_188, url)
          else
            let clean_href = concat (map quote url)
            in if \<not> valid clean_href
               then (case urljoin netloc_ok root' clean_href of
                       Inl err \<Rightarrow> Inl err
                     | Inr href \<Rightarrow>
                    (case urlparse netloc_ok href [] of
                       Inl err \<Rightarrow> Inl err
                     | Inr parsed_href \<Rightarrow>
                         let valid_href = url_scheme parsed_href @ ''://''
                                            @ url_netloc parsed_href @ url_path parsed_href
                         in if valid valid_href then Inr (Line_201, valid_href)
                            else Inr (Line_205, [])))
               else Inr (Line_203, url))"

definition modify_verify_url ::
  "(string \<Rightarrow> bool) \<Rightarrow> (string \<Rightarrow> bool) \<Rightarrow> string \<Rightarrow> string option \<Rightarrow> error + string" where
  "modify_verify_url valid netloc_ok root' url =
     map_sum id snd (modify_verify_url_exit valid netloc_ok root' url)"

text \<open>
  The reading of "query string and fragment removed" used to state the claims: the URL
  up to its first \<^verbatim>\<open>?\<close> or \<^verbatim>\<open>#\<close>.
\<close>

definition strip_query_fragment :: "string \<Rightarrow> string" where
  "strip_query_fragment u = takeWhile (\<lambda>c. c \<notin> set ''?#'') u"

subsection \<open>The parsed document\<close>

text \<open>
  A BeautifulSoup tree: a tag has a name, its attribute dictionary (as an association
  list read with \<open>map_of\<close>) and its children; the other nodes are text.
  \<^verbatim>\<open>soup.find_all(name)\<close> gives the tags of that name below the root in document order,
  and \<^verbatim>\<open>tag.get(key)\<close> gives the attribute or \<^verbatim>\<open>None\<close>.
\<close>

datatype node = Tag string "(string \<times> string) list" "node list" | NavigableString string

fun descendants :: "node \<Rightarrow> node list" where
  "descendants (Tag name attrs children) = concat (map (\<lambda>c. c # descendants c) children)"
| "descendants (NavigableString text) = []"

fun is_tag :: "string \<Rightarrow> node \<Rightarrow> bool" where
  "is_tag name (Tag name' attrs children) = (name' = name)"
| "is_tag name (NavigableString text) = False"

definition find_all :: "node \<Rightarrow> string \<Rightarrow> node list" where
  "find_all soup name = filter (is_tag name) (descendants soup)"

fun tag_get :: "node \<Rightarrow> string \<Rightarrow> string option" where
  "tag_get (Tag name attrs children) key = map_of attrs key"
| "tag_get (NavigableString text) key = None"

subsection \<open>get_all_sublinks_from_soup (lines 135 to 155)\<close>

text \<open>
  The \<^verbatim>\<open>for\<close> loop over the anchors, with \<^verbatim>\<open>temp_set\<close> as its state; \<open>root'\<close> is
  \<^verbatim>\<open>self.root\<close>. An exception of \<^verbatim>\<open>modify_verify_url\<close> ends the loop.
\<close>

fun sublinks_loop ::
  "(string \<Rightarrow> bool) \<Rightarrow> (string \<Rightarrow> bool) \<Rightarrow> string \<Rightarrow> node list \<Rightarrow> string set
     \<Rightarrow> error + string set" where
  "sublinks_loop valid netloc_ok root' [] temp_set = Inr temp_set"
| "sublinks_loop valid netloc_ok root' (a_tag # rest) temp_set =
     (let href = tag_get a_tag ''href''
      in if href = Some [] \<or> href = None then sublinks_loop valid netloc_ok root' rest temp_set
         else
           case modify_verify_url valid netloc_ok root' href of
             Inl err \<Rightarrow> Inl err
           | Inr clean_href \<Rightarrow>
               if clean_href \<noteq> [] \<and> \<not> contains clean_href ''mailto''
               then sublinks_loop valid netloc_ok root' rest (insert clean_href temp_set)
               else sublinks_loop valid netloc_ok root' rest temp_set)"

definition get_all_sublinks_from_soup ::
  "(string \<Rightarrow> bool) \<Rightarrow> (string \<Rightarrow> bool) \<Rightarrow> string \<Rightarrow> node \<Rightarrow> error + string set" where
  "get_all_sublinks_from_soup valid netloc_ok root' soup =
     sublinks_loop valid netloc_ok root' (find_all soup ''a'') {}"

subsection \<open>get_all_images_from_soup (lines 157 to 172)\<close>

text \<open>
  The loop over the \<^verbatim>\<open>img\<close> tags with its two variables: the set of pairs
  \<^verbatim>\<open>(alt, src)\<close> and the list \<^verbatim>\<open>temp_links\<close> of the sources seen. Both attributes may be
  absent (\<^verbatim>\<open>None\<close>).
\<close>

fun images_loop ::
  "node list \<Rightarrow> (string option \<times> string option) set \<Rightarrow> string option list
     \<Rightarrow> (string option \<times> string option) set" where
  "images_loop [] temp_set temp_links = temp_set"
| "images_loop (a_tag # rest) temp_set temp_links =
     (if tag_get a_tag ''src'' \<notin> set temp_links
      then images_loop rest (insert (tag_get a_tag ''alt'', tag_get a_tag ''src'') temp_set)
             (temp_links @ [tag_get a_tag ''src''])
      else images_loop rest temp_set temp_links)"

definition get_all_images_from_soup :: "node \<Rightarrow> (string option \<times> string option) set" where
  "get_all_images_from_soup soup = images_loop (find_all soup ''img'') {} []"

subsection \<open>Python floats\<close>

text \<open>
  \<^verbatim>\<open>counter /= 2\<close> makes \<^verbatim>\<open>counter\<close> a float, and with it \<^verbatim>\<open>multiplier\<close> and
  \<^verbatim>\<open>scroll_dist\<close>. A finite float (IEEE 754 binary64) is a rational number; an operation
  gives the exact result rounded to the nearest float, ties to the even significand.
  \<open>fl\<close> is that rounding: the exponent \<open>e\<close> of the argument (at least \<open>-1022\<close>, below
  which the floats are subnormal), the spacing \<open>2\<^sup>e\<^sup>-\<^sup>5\<^sup>2\<close> of the floats at that
  exponent, and the nearest multiple of the spacing. Overflow to infinity is not modelled
  (no value of the loop exceeds the scroll height).
\<close>

definition ilog2 :: "rat \<Rightarrow> int" where
  "ilog2 x = (let (a, b) = quotient_of x; d = bitlen a - bitlen b
              in if power_int 2 d \<le> x then d else d - 1)"

definition round_half_even :: "rat \<Rightarrow> int" where
  "round_half_even q =
     (let n = \<lfloor>q\<rfloor>; f = q - of_int n
      in if f < 1 / 2 then n else if 1 / 2 < f then n + 1 else if even n then n else n + 1)"

definition fl :: "rat \<Rightarrow> rat" where
  "fl x = (if x = 0 then 0
           else let e = max (ilog2 \<bar>x\<bar>) (- 1022); u = power_int 2 (e - 52)
                in sgn x * of_int (round_half_even (\<bar>x\<bar> / u)) * u)"

subsection \<open>_scroll_down_pages (lines 264 to 301)\<close>

text \<open>The variables of the loop, and the session.\<close>

record 's scroll_state =
  sc_counter :: rat
  sc_multiplier :: rat
  sc_r :: nat
  sc_start_y :: rat
  sc_session :: 's

datatype 'a pass = Break 'a | Continue 'a

text \<open>
  One pass of the \<^verbatim>\<open>while True\<close> loop, lines 283 to 301: halve the counter and add it to
  the multiplier, read the scroll height, scroll to \<^verbatim>\<open>scroll_height * multiplier\<close> (the
  integer height is converted to a float first), sleep one second, read the number of
  performance entries as \<^verbatim>\<open>q\<close>; \<^verbatim>\<open>break\<close> when \<^verbatim>\<open>q == r\<close>, else store \<^verbatim>\<open>q\<close> in
  \<^verbatim>\<open>r\<close> and the offset in \<^verbatim>\<open>start_y\<close>.
\<close>

definition scroll_pass :: "('s, 'e) webdriver \<Rightarrow> 's scroll_state \<Rightarrow> 's scroll_state pass" where
  "scroll_pass wd st =
     (let counter = fl (sc_counter st / 2);
          multiplier = fl (sc_multiplier st + counter);
          scroll_height = wd_scroll_height wd (sc_session st);
          scroll_dist = fl (fl (of_int scroll_height) * multiplier);
          s1 = wd_scroll_to wd (sc_start_y st) scroll_dist (sc_session st);
          s2 = wd_sleep wd 1 s1;
          q = wd_performance_entries wd s2
      in if q = sc_r st
         then Break (st\<lparr> sc_counter := counter, sc_multiplier := multiplier, sc_session := s2 \<rparr>)
         else Continue \<lparr> sc_counter = counter, sc_multiplier = multiplier, sc_r = q,
                         sc_start_y = scroll_dist, sc_session = s2 \<rparr>)"

text \<open>The loop has no bound of its own: \<open>None\<close> is a run that never leaves it.\<close>

partial_function (option) scroll_loop ::
  "('s, 'e) webdriver \<Rightarrow> 's scroll_state \<Rightarrow> 's scroll_state option" where
  "scroll_loop wd st =
     (case scroll_pass wd st of
        Break st' \<Rightarrow> Some st'
      | Continue st' \<Rightarrow> scroll_loop wd st')"

text \<open>
  The state in which the loop is entered (lines 273 to 281): the page is loaded, the
  program sleeps two seconds, \<^verbatim>\<open>start_y\<close> is 0, \<^verbatim>\<open>r\<close> is the first count of performance
  entries, \<^verbatim>\<open>counter\<close> is 1 and \<^verbatim>\<open>multiplier\<close> is 0. (The scroll height read in line 277
  is overwritten in line 286 before it is used.) Line 273 is indented with two tab
  characters where the lines around it have eight spaces, which Python 3 refuses when it
  compiles the file (\<^verbatim>\<open>TabError\<close>); the model reads the line at the depth of its
  neighbours, as the first statement of the method.
\<close>

definition scroll_start :: "('s, 'e) webdriver \<Rightarrow> 's \<Rightarrow> string \<Rightarrow> 's scroll_state" where
  "scroll_start wd s webpage =
     (let s0 = snd (optimize_selenium_driver wd s webpage);
          s1 = wd_sleep wd 2 s0
      in \<lparr> sc_counter = 1, sc_multiplier = 0, sc_r = wd_performance_entries wd s1,
           sc_start_y = 0, sc_session = s1 \<rparr>)"

definition scroll_down_pages :: "('s, 'e) webdriver \<Rightarrow> 's \<Rightarrow> string \<Rightarrow> 's scroll_state option" where
  "scroll_down_pages wd s webpage = scroll_loop wd (scroll_start wd s webpage)"

text \<open>
  To speak of the passes one by one: the state after \<open>n\<close> passes, when none of them was
  the last; and the count of performance entries that a pass reads.
\<close>

fun after_passes :: "('s, 'e) webdriver \<Rightarrow> 's scroll_state \<Rightarrow> nat \<Rightarrow> 's scroll_state option" where
  "after_passes wd st 0 = Some st"
| "after_passes wd st (Suc n) =
     (case after_passes wd st n of
        None \<Rightarrow> None
      | Some st' \<Rightarrow> (case scroll_pass wd st' of Break st'' \<Rightarrow> None | Continue st'' \<Rightarrow> Some st''))"

definition pass_signal :: "('s, 'e) webdriver \<Rightarrow> 's scroll_state \<Rightarrow> nat" where
  "pass_signal wd st =
     wd_performance_entries wd
       (wd_sleep wd 1
          (wd_scroll_to wd (sc_start_y st)
             (fl (fl (of_int (wd_scroll_height wd (sc_session st)))
                    * fl (sc_multiplier st + fl (sc_counter st / 2))))
             (sc_session st)))"




subsection \<open>Concrete sessions for evaluation\<close>

text \<open>
  A page that never changes: the session is the current URL, \<^verbatim>\<open>get\<close> succeeds, and the
  document answers an XPath lookup from a fixed table.
\<close>

definition static_page :: "(string \<times> 'e) list \<Rightarrow> (string, 'e) webdriver" where
  "static_page elements =
     \<lparr> wd_current_url = (\<lambda>s. s),
       wd_get = (\<lambda>url s. (False, url)),
       wd_find_element = (\<lambda>s path. map_of elements path),
       wd_scroll_height = (\<lambda>s. 0),
       wd_performance_entries = (\<lambda>s. 0),
       wd_scroll_to = (\<lambda>x y s. s),
       wd_sleep = (\<lambda>n s. s) \<rparr>"

text \<open>Two documents for evaluation.\<close>

definition two_images :: node where
  "two_images =
     Tag ''[document]'' []
       [Tag ''body'' []
          [Tag ''img'' [(''src'', ''/a.png''), (''alt'', ''first'')] [],
           NavigableString ''text'',
           Tag ''div'' [] [Tag ''img'' [(''alt'', ''second''), (''src'', ''/a.png'')] []]]]"

definition three_anchors :: node where
  "three_anchors =
     Tag ''[document]'' []
       [Tag ''body'' []
          [Tag ''a'' [(''href'', ''mailto:a@b.com'')] [NavigableString ''mail''],
           Tag ''a'' [(''href'', '''')] [],
           Tag ''p'' [] [Tag ''a'' [(''name'', ''top'')] []],
           Tag ''a'' [(''href'', ''https://example.com/about'')] []]]"

text \<open>
  A page whose count of performance entries is scripted: the session is the list of the
  counts still to come, a read gives its head, and a scroll moves on to the next.
\<close>

definition scripted_page :: "(nat list, unit) webdriver" where
  "scripted_page =
     \<lparr> wd_current_url = (\<lambda>s. []),
       wd_get = (\<lambda>url s. (False, s)),
       wd_find_element = (\<lambda>s path. None),
       wd_scroll_height = (\<lambda>s. 1000),
       wd_performance_entries = (\<lambda>s. case s of [] \<Rightarrow> 0 | x # xs \<Rightarrow> x),
       wd_scroll_to = (\<lambda>x y s. tl s),
       wd_sleep = (\<lambda>n s. s) \<rparr>"


section \<open>Properties\<close>

subsection \<open>Auxiliary facts on strings\<close>

lemma str_digit: "n < 10 \<Longrightarrow> str n = [digit_char n]"
  by (subst str.simps) simp

lemma str_1: "str 1 = ''1''"
  by (simp add: str_digit digit_char_def)

lemma str_Suc_0: "str (Suc 0) = ''1''"
  using str_1 by simp

subsection \<open>get_elements_xpaths\<close>

text \<open>
  Whenever the loop returns, it returns an exception: IndexError when the template has no
  second piece, UnboundLocalError when \<^verbatim>\<open>element\<close> was never bound. The \<^verbatim>\<open>break\<close> of
  line 241 needs \<^verbatim>\<open>element\<close> to be \<^verbatim>\<open>None\<close>, and no assignment of the loop gives it
  that value.
\<close>

lemma xpaths_loop_returns:
  assumes "xpaths_loop f ps i el acc = Some r"
  shows "el \<noteq> Some PyNone \<longrightarrow>
           (r = Inl IndexError \<and> length ps < 2) \<or>
           (r = Inl UnboundLocalError \<and> el = None \<and> 2 \<le> length ps)"
proof (rule xpaths_loop.raw_induct[where P = "\<lambda>f ps i el acc r. el \<noteq> Some PyNone \<longrightarrow>
           (r = Inl IndexError \<and> length ps < 2) \<or>
           (r = Inl UnboundLocalError \<and> el = None \<and> 2 \<le> length ps)", OF _ assms])
  fix loop :: "(string \<Rightarrow> 'a option) \<Rightarrow> string list \<Rightarrow> nat \<Rightarrow> 'a pyval option \<Rightarrow> 'a list
     \<Rightarrow> (error + 'a list) option" and f ps i el acc r
  assume IH: "\<And>f ps i el acc r. loop f ps i el acc = Some r \<Longrightarrow> el \<noteq> Some PyNone \<longrightarrow>
           (r = Inl IndexError \<and> length ps < 2) \<or>
           (r = Inl UnboundLocalError \<and> el = None \<and> 2 \<le> length ps)"
  assume body: "(case subscript ps 0 of
        Inl err \<Rightarrow> Some (Inl err)
      | Inr p0 \<Rightarrow>
     (case subscript ps 1 of
        Inl err \<Rightarrow> Some (Inl err)
      | Inr p1 \<Rightarrow>
          let current_path = p0 @ ''['' @ str i @ '']'' @ p1;
              element' = (case f current_path of
                            Some e \<Rightarrow> Some (WebElement e)
                          | None \<Rightarrow> el)
          in (case element' of
                None \<Rightarrow> Some (Inl UnboundLocalError)
              | Some PyNone \<Rightarrow> Some (Inr acc)
              | Some (WebElement e) \<Rightarrow>
                  loop f ps (i + 1) element' (acc @ [e])))) = Some r"
  show "el \<noteq> Some PyNone \<longrightarrow>
           (r = Inl IndexError \<and> length ps < 2) \<or>
           (r = Inl UnboundLocalError \<and> el = None \<and> 2 \<le> length ps)"
  proof (cases "subscript ps 0")
    case (Inl err)
    with body show ?thesis by (auto simp: subscript_def split: if_splits)
  next
    case p0: (Inr p0)
    show ?thesis
    proof (cases "subscript ps 1")
      case (Inl err)
      with body p0 show ?thesis by (auto simp: subscript_def split: if_splits)
    next
      case p1: (Inr p1)
      then have len: "2 \<le> length ps" by (auto simp: subscript_def split: if_splits)
      let ?path = "p0 @ ''['' @ str i @ '']'' @ p1"
      show ?thesis
      proof (cases "f ?path")
        case (Some e)
        with body p0 p1 have "loop f ps (i + 1) (Some (WebElement e)) (acc @ [e]) = Some r"
          by (simp add: Let_def)
        from IH[OF this] len show ?thesis by simp
      next
        case miss: None
        show ?thesis
        proof (cases el)
          case None
          with body p0 p1 miss len show ?thesis by (auto simp add: Let_def)
        next
          case (Some v)
          show ?thesis
          proof (cases v)
            case PyNone
            with Some show ?thesis by simp
          next
            case (WebElement e)
            with body p0 p1 miss Some
            have "loop f ps (i + 1) (Some (WebElement e)) (acc @ [e]) = Some r"
              by (simp add: Let_def)
            from IH[OF this] len show ?thesis by simp
          qed
        qed
      qed
    qed
  qed
qed

text \<open>Once \<^verbatim>\<open>element\<close> holds a WebElement the loop cannot leave: the run never returns.\<close>

lemma xpaths_loop_diverges:
  assumes "2 \<le> length ps"
  shows "xpaths_loop f ps i (Some (WebElement e)) acc = None"
proof (cases "xpaths_loop f ps i (Some (WebElement e)) acc")
  case None
  then show ?thesis .
next
  case (Some r)
  from xpaths_loop_returns[OF this] assms show ?thesis by simp
qed

lemma xpaths_loop_first_hit:
  assumes "f (p0 @ ''['' @ str i @ '']'' @ p1) = Some e"
  shows "xpaths_loop f (p0 # p1 # rest) i None acc = None"
proof -
  have "xpaths_loop f (p0 # p1 # rest) i None acc =
        xpaths_loop f (p0 # p1 # rest) (i + 1) (Some (WebElement e)) (acc @ [e])"
    using assms by (subst xpaths_loop.simps) (simp add: subscript_def Let_def)
  then show ?thesis by (simp add: xpaths_loop_diverges)
qed

lemma xpaths_loop_first_miss:
  assumes "f (p0 @ ''['' @ str i @ '']'' @ p1) = None"
  shows "xpaths_loop f (p0 # p1 # rest) i None acc = Some (Inl UnboundLocalError)"
  using assms by (subst xpaths_loop.simps) (simp add: subscript_def Let_def)

lemma static_page_find: "wd_find_element (static_page elements) s = map_of elements"
  by (simp add: static_page_def)

lemma split_li_template: "split ''//ul/li[INDEX]'' ''[INDEX]'' = [''//ul/li'', '''']"
  by (simp add: split_def)

text \<open>
  Claim C1 (the code differs). The claim: on a page with exactly N contiguous matches at
  indices 1..N the function returns a sequence of length N, and on a page with no match at
  index 1 it returns the empty sequence. The code returns a list for no page and no
  template at all. On the page with matches at \<^verbatim>\<open>//ul/li[1]\<close> and \<^verbatim>\<open>//ul/li[2]\<close> only,
  the miss at index 3 leaves \<^verbatim>\<open>element\<close> on the second item, which is appended again
  and again: the call never returns. On the page with a match at index 2 only, the miss
  at index 1 finds \<^verbatim>\<open>element\<close> unbound and the call raises UnboundLocalError.
\<close>

theorem get_elements_xpaths_never_returns_a_list:
  "get_elements_xpaths wd s webpage xpath \<noteq> Some (Inr xs)
   \<and> get_elements_xpaths (static_page [(''//ul/li[1]'', 1::nat), (''//ul/li[2]'', 2)])
       '''' ''https://example.com/list'' ''//ul/li[INDEX]'' = None
   \<and> get_elements_xpaths (static_page [(''//ul/li[2]'', 2::nat)])
       '''' ''https://example.com/list'' ''//ul/li[INDEX]'' = Some (Inl UnboundLocalError)"
proof (intro conjI)
  show "get_elements_xpaths wd s webpage xpath \<noteq> Some (Inr xs)"
  proof
    assume "get_elements_xpaths wd s webpage xpath = Some (Inr xs)"
    then have "xpaths_loop (wd_find_element wd (snd (optimize_selenium_driver wd s webpage)))
                 (split xpath ''[INDEX]'') 1 None [] = Some (Inr xs)"
      by (simp add: get_elements_xpaths_def Let_def)
    from xpaths_loop_returns[OF this] show False by simp
  qed
next
  have "get_elements_xpaths (static_page [(''//ul/li[1]'', 1::nat), (''//ul/li[2]'', 2)])
       '''' ''https://example.com/list'' ''//ul/li[INDEX]''
     = xpaths_loop (map_of [(''//ul/li[1]'', 1::nat), (''//ul/li[2]'', 2)])
         [''//ul/li'', ''''] 1 None []"
    by (simp only: get_elements_xpaths_def Let_def split_li_template static_page_find)
  also have "\<dots> = None"
    by (rule xpaths_loop_first_hit) (simp add: str_1 str_Suc_0)
  finally show "get_elements_xpaths (static_page [(''//ul/li[1]'', 1::nat), (''//ul/li[2]'', 2)])
       '''' ''https://example.com/list'' ''//ul/li[INDEX]'' = None" .
next
  have "get_elements_xpaths (static_page [(''//ul/li[2]'', 2::nat)])
       '''' ''https://example.com/list'' ''//ul/li[INDEX]''
     = xpaths_loop (map_of [(''//ul/li[2]'', 2::nat)]) [''//ul/li'', ''''] 1 None []"
    by (simp only: get_elements_xpaths_def Let_def split_li_template static_page_find)
  also have "\<dots> = Some (Inl UnboundLocalError)"
    by (rule xpaths_loop_first_miss) (simp add: str_1 str_Suc_0)
  finally show "get_elements_xpaths (static_page [(''//ul/li[2]'', 2::nat)])
       '''' ''https://example.com/list'' ''//ul/li[INDEX]'' = Some (Inl UnboundLocalError)" .
qed

text \<open>
  Claim C4 (the code differs). The claim: a locator miss is handled inside the function as
  the loop's stop condition and never reaches the caller as an exception. In the code the
  NoSuchElementException is caught, but the handler only passes: a miss at index 1 leaves
  \<^verbatim>\<open>element\<close> unbound, and the test of line 237 raises UnboundLocalError to the caller,
  for every template that holds the placeholder and every session.
\<close>

theorem locator_miss_at_index_1_raises:
  assumes "split xpath ''[INDEX]'' = p0 # p1 # rest"
    and "wd_find_element wd (snd (optimize_selenium_driver wd s webpage)) (p0 @ ''[1]'' @ p1) = None"
  shows "get_elements_xpaths wd s webpage xpath = Some (Inl UnboundLocalError)"
proof -
  from assms(2)
  have "wd_find_element wd (snd (optimize_selenium_driver wd s webpage))
          (p0 @ ''['' @ str 1 @ '']'' @ p1) = None"
    by (simp add: str_1 str_Suc_0)
  from xpaths_loop_first_miss[where f = "wd_find_element wd (snd (optimize_selenium_driver wd s webpage))"
      and ?p0.0 = p0 and ?p1.0 = p1 and i = 1, OF this] assms(1) show ?thesis
    by (simp add: get_elements_xpaths_def Let_def)
qed

theorem locator_miss_at_index_1_raises_witness:
  "get_elements_xpaths (static_page ([] :: (string \<times> nat) list)) ''https://example.com/list''
     ''https://example.com/list'' ''//div[INDEX]/a'' = Some (Inl UnboundLocalError)"
proof -
  have a: "split ''//div[INDEX]/a'' ''[INDEX]'' = ''//div'' # ''/a'' # []"
    by (simp add: split_def)
  have b: "wd_find_element (static_page ([] :: (string \<times> nat) list))
             (snd (optimize_selenium_driver (static_page []) ''https://example.com/list''
                ''https://example.com/list'')) (''//div'' @ ''[1]'' @ ''/a'') = None"
    by (simp add: static_page_def)
  from locator_miss_at_index_1_raises[OF a b] show ?thesis .
qed

subsection \<open>modify_verify_url\<close>

lemma hex_digit_not_colon: "d < 16 \<Longrightarrow> hex_digit d \<noteq> CHR '':''"
proof -
  assume "d < 16"
  then have "hex_digit d \<in> set ''0123456789ABCDEF''"
    unfolding hex_digit_def by (intro nth_mem) simp
  then show ?thesis by auto
qed

lemma percent_no_colon: "b < 256 \<Longrightarrow> CHR '':'' \<notin> set (percent b)"
proof -
  assume "b < 256"
  then have "b div 16 < 16" by simp
  moreover have "b mod 16 < 16" by simp
  ultimately show ?thesis
    using hex_digit_not_colon[of "b div 16"] hex_digit_not_colon[of "b mod 16"]
    by (auto simp: percent_def)
qed

text \<open>\<^verbatim>\<open>quote\<close> never writes a colon: the colon itself becomes \<^verbatim>\<open>%3A\<close>.\<close>

lemma quote_no_colon: "CHR '':'' \<notin> set (quote c)"
proof -
  let ?n = "of_char c :: nat"
  have n: "?n < 256" by simp
  show ?thesis
  proof (cases "?n < 128")
    case True
    then have "CHR '':'' \<notin> set (percent ?n)" by (simp add: percent_no_colon)
    moreover have "\<not> always_safe CHR '':''"
      by (simp add: always_safe_def ascii_upper_def ascii_lower_def ascii_digits_def)
    ultimately show ?thesis using True by (auto simp: quote_def Let_def)
  next
    case False
    have "192 + ?n div 64 < 256" using n by arith
    moreover have "128 + ?n mod 64 < 256"
    proof -
      have "?n mod 64 < 64" by simp
      then show ?thesis by simp
    qed
    ultimately show ?thesis using False by (simp add: quote_def Let_def percent_no_colon)
  qed
qed

lemma clean_href_no_colon: "CHR '':'' \<notin> set (concat (map quote url))"
  by (simp add: quote_no_colon)

lemma quote_colon: "quote CHR '':'' = ''%3A''"
  by (simp add: quote_def always_safe_def ascii_upper_def ascii_lower_def ascii_digits_def
      percent_def hex_digit_def)

lemma url_shape_colon: "url_shape s \<Longrightarrow> CHR '':'' \<in> set s"
proof (rule ccontr)
  assume a: "url_shape s" and n: "CHR '':'' \<notin> set s"
  from n have t: "takeWhile (\<lambda>c. c \<noteq> CHR '':'') s = s"
    by (auto simp: takeWhile_eq_all_conv)
  from a[unfolded url_shape_def Let_def, THEN conjunct2, THEN conjunct1]
  have "take 3 (drop (length (takeWhile (\<lambda>c. c \<noteq> CHR '':'') s)) s) = ''://''" .
  then show False unfolding t by simp
qed

text \<open>
  Claim C2 (amended). The claim: for a well-formed absolute URL the result is the URL with
  its query string and fragment removed. The first statement of the method returns a URL
  that validates as it is, so the query string and the fragment stay; the components are
  taken apart only on the path through \<^verbatim>\<open>urljoin\<close>. The example: the validator accepts
  \<^verbatim>\<open>https://example.com/item?ref=1#top\<close>, the method returns it unchanged, and that is
  not \<^verbatim>\<open>https://example.com/item\<close>.
\<close>

theorem valid_url_keeps_query_and_fragment_example:
  "url_shape ''https://example.com/item?ref=1#top''
   \<and> modify_verify_url url_shape loopback_only ''https://example.com/shop''
         (Some ''https://example.com/item?ref=1#top'') = Inr ''https://example.com/item?ref=1#top''
   \<and> strip_query_fragment ''https://example.com/item?ref=1#top'' = ''https://example.com/item''
   \<and> modify_verify_url url_shape loopback_only ''https://example.com/shop''
         (Some ''https://example.com/item?ref=1#top'')
       \<noteq> Inr (strip_query_fragment ''https://example.com/item?ref=1#top'')"
proof -
  have a: "url_shape ''https://example.com/item?ref=1#top''"
    by code_simp
  have b: "strip_query_fragment ''https://example.com/item?ref=1#top'' = ''https://example.com/item''"
    by code_simp
  have c: "modify_verify_url url_shape loopback_only ''https://example.com/shop''
         (Some ''https://example.com/item?ref=1#top'') = Inr ''https://example.com/item?ref=1#top''"
    using a by (simp add: modify_verify_url_def modify_verify_url_exit_def)
  show ?thesis
    unfolding b c using a by simp
qed

text \<open>
  Claim C2, as amended: for every URL \<open>u\<close> that the validator accepts and every root,
  \<^verbatim>\<open>modify_verify_url(root, u)\<close> is \<open>u\<close> itself, unchanged.
\<close>

theorem modify_verify_url_valid_unchanged:
  assumes "valid u"
  shows "modify_verify_url valid netloc_ok root' (Some u) = Inr u"
  using assms by (simp add: modify_verify_url_def modify_verify_url_exit_def)

theorem modify_verify_url_valid_unchanged_witness:
  "modify_verify_url url_shape loopback_only ''https://other.example.org/''
     (Some ''https://example.com/item?ref=1#top'') = Inr ''https://example.com/item?ref=1#top''"
proof -
  have "url_shape ''https://example.com/item?ref=1#top''" by code_simp
  from modify_verify_url_valid_unchanged[of url_shape "''https://example.com/item?ref=1#top''"
      loopback_only "''https://other.example.org/''", OF this]
  show ?thesis .
qed

lemma quote_item: "concat (map quote ''/item?ref=1#top'') = ''/item%3Fref%3D1%23top''"
  by code_simp

lemma urljoin_item:
  "urljoin netloc_ok ''https://example.com/shop'' ''/item%3Fref%3D1%23top''
     = Inr ''https://example.com/item%3Fref%3D1%23top''"
  by code_simp

lemma urlparse_item:
  "urlparse netloc_ok ''https://example.com/item%3Fref%3D1%23top'' []
     = Inr \<lparr> url_scheme = ''https'', url_netloc = ''example.com'',
              url_path = ''/item%3Fref%3D1%23top'', url_params = [], url_query = [],
              url_fragment = [] \<rparr>"
  by code_simp

text \<open>The method on a string whose quoted form joins and parses without an exception.\<close>

lemma modify_verify_url_joined:
  assumes "concat (map quote u) = c" and "urljoin netloc_ok r c = Inr h" and "urlparse netloc_ok h [] = Inr p"
  shows "modify_verify_url valid netloc_ok r (Some u) =
           (if valid u \<or> valid c then Inr u
            else if valid (url_scheme p @ ''://'' @ url_netloc p @ url_path p)
            then Inr (url_scheme p @ ''://'' @ url_netloc p @ url_path p)
            else Inr [])"
  using assms by (simp add: modify_verify_url_def modify_verify_url_exit_def Let_def)

text \<open>
  Claim C3 (the code differs). The claim: root \<^verbatim>\<open>https://example.com/shop\<close> and href
  \<^verbatim>\<open>/item?ref=1#top\<close> give \<^verbatim>\<open>https://example.com/item\<close>. Line 190 quotes every
  character of the href before it is joined and parsed, so \<^verbatim>\<open>?\<close>, \<^verbatim>\<open>=\<close> and \<^verbatim>\<open>#\<close>
  have become \<^verbatim>\<open>%3F\<close>, \<^verbatim>\<open>%3D\<close> and \<^verbatim>\<open>%23\<close>, \<^verbatim>\<open>urlparse\<close> finds neither query nor
  fragment, and the whole string is the path. Whatever the validator answers, the result
  is not \<^verbatim>\<open>https://example.com/item\<close>; with a validator that rejects the relative
  strings and accepts the joined one, it is
  \<^verbatim>\<open>https://example.com/item%3Fref%3D1%23top\<close>.
\<close>

theorem modify_verify_url_item_example:
  "modify_verify_url valid netloc_ok ''https://example.com/shop'' (Some ''/item?ref=1#top'')
     \<noteq> Inr ''https://example.com/item''
   \<and> modify_verify_url url_shape loopback_only ''https://example.com/shop'' (Some ''/item?ref=1#top'')
     = Inr ''https://example.com/item%3Fref%3D1%23top''"
proof
  show "modify_verify_url valid netloc_ok ''https://example.com/shop'' (Some ''/item?ref=1#top'')
     \<noteq> Inr ''https://example.com/item''"
    by (simp add: modify_verify_url_joined[OF quote_item urljoin_item urlparse_item])
next
  show "modify_verify_url url_shape loopback_only ''https://example.com/shop'' (Some ''/item?ref=1#top'')
     = Inr ''https://example.com/item%3Fref%3D1%23top''"
    by code_simp
qed

text \<open>
  Claim C10. The claim: the \<^verbatim>\<open>return url\<close> of line 203, taken when the raw string does
  not validate and its quoted form does, is never reached, because the quoted form holds
  no colon. The validator is any function that accepts only strings with a colon (every
  absolute URL has one after its scheme): then the method never leaves through line 203,
  and for a string it leaves through line 188, 201 or 205.
\<close>

theorem modify_verify_url_line_203_unreachable:
  assumes "\<forall>s. valid s \<longrightarrow> CHR '':'' \<in> set s"
  shows "\<not> valid (concat (map quote url))
         \<and> modify_verify_url_exit valid netloc_ok root' (Some url) \<noteq> Inr (Line_203, r)
         \<and> (modify_verify_url_exit valid netloc_ok root' (Some url) = Inr (e, r)
              \<longrightarrow> e \<in> {Line_188, Line_201, Line_205})"
proof -
  have nv: "\<not> valid (concat (map quote url))"
    using assms clean_href_no_colon by blast
  then have "modify_verify_url_exit valid netloc_ok root' (Some url) \<noteq> Inr (Line_203, r)" for r
    by (auto simp: modify_verify_url_exit_def Let_def split: sum.splits)
  moreover have "modify_verify_url_exit valid netloc_ok root' (Some url) = Inr (e, r)
              \<longrightarrow> e \<in> {Line_188, Line_201, Line_205}"
    using nv by (auto simp: modify_verify_url_exit_def Let_def split: sum.splits if_splits)
  ultimately show ?thesis using nv by blast
qed

theorem modify_verify_url_line_203_unreachable_witness:
  "\<not> url_shape (concat (map quote ''http://example.com/a b''))
   \<and> modify_verify_url_exit url_shape loopback_only ''https://example.com/shop'' (Some ''http://example.com/a b'')
       \<noteq> Inr (Line_203, ''http://example.com/a b'')"
proof -
  have "\<forall>s. url_shape s \<longrightarrow> CHR '':'' \<in> set s" using url_shape_colon by blast
  from modify_verify_url_line_203_unreachable[OF this] show ?thesis by blast
qed

subsection \<open>get_all_images_from_soup\<close>

text \<open>
  The entries of the result with a given source, for any state of the loop: none is added
  for a source already in \<^verbatim>\<open>temp_links\<close>; otherwise the first tag with that source adds
  its pair, and no later tag does.
\<close>

lemma images_loop_by_src:
  "{p \<in> images_loop tags temp_set temp_links. snd p = s} =
     (if s \<in> set temp_links then {p \<in> temp_set. snd p = s}
      else case List.find (\<lambda>u. tag_get u ''src'' = s) tags of
             None \<Rightarrow> {p \<in> temp_set. snd p = s}
           | Some first \<Rightarrow> insert (tag_get first ''alt'', s) {p \<in> temp_set. snd p = s})"
proof (induction tags arbitrary: temp_set temp_links)
  case Nil
  show ?case by simp
next
  case (Cons a_tag rest)
  show ?case
  proof (cases "tag_get a_tag ''src'' \<in> set temp_links")
    case True
    then show ?thesis by (auto simp: Cons.IH)
  next
    case False
    then show ?thesis by (auto simp: Cons.IH split: option.splits)
  qed
qed

lemma find_all_two_images:
  "find_all two_images ''img'' =
     [Tag ''img'' [(''src'', ''/a.png''), (''alt'', ''first'')] [],
      Tag ''img'' [(''alt'', ''second''), (''src'', ''/a.png'')] []]"
  by (simp add: find_all_def two_images_def)

text \<open>
  Claim C9. Image references are deduplicated by \<^verbatim>\<open>src\<close> only. For every document and
  every source \<open>s\<close>, the result holds no pair with source \<open>s\<close> when no \<^verbatim>\<open>img\<close> tag has
  it, and otherwise exactly one: the pair of the first \<^verbatim>\<open>img\<close> tag in document order
  whose source is \<open>s\<close>, whatever the \<^verbatim>\<open>alt\<close> texts of the later ones.
\<close>

theorem images_deduplicated_by_src:
  "{p \<in> get_all_images_from_soup soup. snd p = s} =
     (case List.find (\<lambda>u. tag_get u ''src'' = s) (find_all soup ''img'') of
        None \<Rightarrow> {}
      | Some first \<Rightarrow> {(tag_get first ''alt'', s)})"
  by (simp add: get_all_images_from_soup_def images_loop_by_src split: option.splits)

text \<open>
  The example of the specification: two \<^verbatim>\<open>img\<close> tags with the source \<^verbatim>\<open>/a.png\<close> and
  different \<^verbatim>\<open>alt\<close> texts give the one pair of the first tag.
\<close>

theorem images_deduplicated_by_src_witness:
  "{p \<in> get_all_images_from_soup two_images. snd p = Some ''/a.png''}
     = {(Some ''first'', Some ''/a.png'')}
   \<and> get_all_images_from_soup two_images = {(Some ''first'', Some ''/a.png'')}"
proof
  show "{p \<in> get_all_images_from_soup two_images. snd p = Some ''/a.png''}
     = {(Some ''first'', Some ''/a.png'')}"
    using images_deduplicated_by_src[of two_images "Some ''/a.png''"]
    by (simp add: find_all_two_images)
next
  show "get_all_images_from_soup two_images = {(Some ''first'', Some ''/a.png'')}"
    by (simp add: get_all_images_from_soup_def find_all_two_images)
qed

subsection \<open>get_all_sublinks_from_soup\<close>

text \<open>The two ways through one pass of the loop over the anchors.\<close>

lemma sublinks_loop_skip:
  assumes "tag_get a_tag ''href'' = Some [] \<or> tag_get a_tag ''href'' = None"
  shows "sublinks_loop valid netloc_ok root' (a_tag # rest) temp_set = sublinks_loop valid netloc_ok root' rest temp_set"
  using assms by (auto simp: Let_def)

lemma sublinks_loop_step:
  assumes "tag_get a_tag ''href'' = Some href" and "href \<noteq> []"
  shows "sublinks_loop valid netloc_ok root' (a_tag # rest) temp_set =
           (case modify_verify_url valid netloc_ok root' (Some href) of
              Inl err \<Rightarrow> Inl err
            | Inr clean_href \<Rightarrow>
                if clean_href \<noteq> [] \<and> \<not> contains clean_href ''mailto''
                then sublinks_loop valid netloc_ok root' rest (insert clean_href temp_set)
                else sublinks_loop valid netloc_ok root' rest temp_set)"
  using assms by (simp add: Let_def)

lemma sublinks_loop_no_mailto:
  assumes "sublinks_loop valid netloc_ok root' tags temp_set = Inr links"
    and "\<forall>x\<in>temp_set. \<not> contains x ''mailto''"
  shows "\<forall>x\<in>links. \<not> contains x ''mailto''"
  using assms
proof (induction tags arbitrary: temp_set)
  case Nil
  then show ?case by simp
next
  case (Cons a_tag rest)
  show ?case
  proof (cases "tag_get a_tag ''href'' = Some [] \<or> tag_get a_tag ''href'' = None")
    case True
    from Cons.prems(1) have "sublinks_loop valid netloc_ok root' rest temp_set = Inr links"
      by (simp only: sublinks_loop_skip[OF True])
    from Cons.IH[OF this Cons.prems(2)] show ?thesis .
  next
    case False
    then obtain href where h: "tag_get a_tag ''href'' = Some href" "href \<noteq> []"
      by (cases "tag_get a_tag ''href''") auto
    note step = Cons.prems(1)[unfolded sublinks_loop_step[OF h]]
    show ?thesis
    proof (cases "modify_verify_url valid netloc_ok root' (Some href)")
      case (Inl err)
      with step show ?thesis by simp
    next
      case (Inr clean_href)
      show ?thesis
      proof (cases "clean_href \<noteq> [] \<and> \<not> contains clean_href ''mailto''")
        case True
        with Inr step
        have run: "sublinks_loop valid netloc_ok root' rest (insert clean_href temp_set) = Inr links"
          by simp
        from True Cons.prems(2)
        have "\<forall>x\<in>insert clean_href temp_set. \<not> contains x ''mailto''"
          by simp
        from Cons.IH[OF run this] show ?thesis .
      next
        case no: False
        with Inr step
        have "sublinks_loop valid netloc_ok root' rest temp_set = Inr links"
          by auto
        from Cons.IH[OF this Cons.prems(2)] show ?thesis .
      qed
    qed
  qed
qed

lemma find_all_three_anchors:
  "find_all three_anchors ''a'' =
     [Tag ''a'' [(''href'', ''mailto:a@b.com'')] [NavigableString ''mail''],
      Tag ''a'' [(''href'', '''')] [],
      Tag ''a'' [(''name'', ''top'')] [],
      Tag ''a'' [(''href'', ''https://example.com/about'')] []]"
  by (simp add: find_all_def three_anchors_def)

lemma modify_verify_url_mailto:
  "modify_verify_url url_shape loopback_only ''https://example.com/shop'' (Some ''mailto:a@b.com'')
     = Inr ''https://example.com/mailto%3Aa%40b.com''"
  by code_simp

lemma modify_verify_url_about:
  "modify_verify_url url_shape loopback_only ''https://example.com/shop'' (Some ''https://example.com/about'')
     = Inr ''https://example.com/about''"
  by code_simp

lemma contains_mailto_joined: "contains ''https://example.com/mailto%3Aa%40b.com'' ''mailto''"
  by code_simp

lemma contains_mailto_about: "\<not> contains ''https://example.com/about'' ''mailto''"
  by code_simp

lemma sublinks_three_anchors:
  "get_all_sublinks_from_soup url_shape loopback_only ''https://example.com/shop'' three_anchors
     = Inr {''https://example.com/about''}"
  unfolding get_all_sublinks_from_soup_def find_all_three_anchors
  by (simp add: Let_def modify_verify_url_mailto modify_verify_url_about
      contains_mailto_joined contains_mailto_about del: contains.simps)

text \<open>
  Claim C8. Whenever the method returns a set, no link of the set holds \<^verbatim>\<open>mailto\<close>: an
  href whose cleaned form holds \<^verbatim>\<open>mailto\<close> is left out, whatever the document, the root
  and the validator. For the href \<^verbatim>\<open>mailto:a@b.com\<close> under the root
  \<^verbatim>\<open>https://example.com/shop\<close> the cleaned form is
  \<^verbatim>\<open>https://example.com/mailto%3Aa%40b.com\<close>; the instance after the theorem is a
  document with that anchor, an empty href, an anchor without href and an absolute link.
\<close>

theorem sublinks_exclude_mailto:
  assumes "get_all_sublinks_from_soup valid netloc_ok root' soup = Inr links"
  shows "(\<forall>x\<in>links. \<not> contains x ''mailto'')
         \<and> (\<forall>href clean_href. modify_verify_url valid netloc_ok root' (Some href) = Inr clean_href
               \<and> contains clean_href ''mailto'' \<longrightarrow> clean_href \<notin> links)"
proof -
  from assms have "sublinks_loop valid netloc_ok root' (find_all soup ''a'') {} = Inr links"
    by (simp add: get_all_sublinks_from_soup_def)
  from sublinks_loop_no_mailto[OF this] have "\<forall>x\<in>links. \<not> contains x ''mailto''"
    by simp
  then show ?thesis by blast
qed

theorem sublinks_exclude_mailto_witness:
  "get_all_sublinks_from_soup url_shape loopback_only ''https://example.com/shop'' three_anchors
     = Inr {''https://example.com/about''}
   \<and> modify_verify_url url_shape loopback_only ''https://example.com/shop'' (Some ''mailto:a@b.com'')
     = Inr ''https://example.com/mailto%3Aa%40b.com''
   \<and> contains ''https://example.com/mailto%3Aa%40b.com'' ''mailto''
   \<and> ''https://example.com/mailto%3Aa%40b.com'' \<notin> {''https://example.com/about''}"
  using sublinks_exclude_mailto[OF sublinks_three_anchors]
    sublinks_three_anchors modify_verify_url_mailto contains_mailto_joined
  by blast

subsection \<open>Empty and absent hrefs\<close>

lemma urljoin_empty: "urljoin netloc_ok root' [] = Inr root'"
  by (simp add: urljoin_def)

lemma url_shape_empty: "\<not> url_shape []"
  by code_simp

lemma url_shape_shop: "url_shape ''https://example.com/shop''"
  by code_simp

lemma url_shape_relative: "\<not> url_shape ''://shop''"
  by code_simp

lemma urlparse_shop:
  "urlparse netloc_ok ''https://example.com/shop'' []
     = Inr \<lparr> url_scheme = ''https'', url_netloc = ''example.com'', url_path = ''/shop'',
              url_params = [], url_query = [], url_fragment = [] \<rparr>"
  by code_simp

lemma urlparse_relative:
  "urlparse netloc_ok ''shop'' []
     = Inr \<lparr> url_scheme = [], url_netloc = [], url_path = ''shop'',
              url_params = [], url_query = [], url_fragment = [] \<rparr>"
  by code_simp

text \<open>
  A root whose host is in square brackets and is no IP literal: the authority is \<^verbatim>\<open>[x]\<close>,
  and the parser raises ValueError when the library's check rejects it.
\<close>

lemma urlparse_bracketed:
  "\<not> netloc_ok ''[x]'' \<Longrightarrow> urlparse netloc_ok ''http://[x]/'' [] = Inl ValueError"
  by (simp add: urlparse_def urlsplit_def Let_def c0_control_or_space_def unsafe_url_byte_def
      ascii_alpha_def scheme_char_def ascii_upper_def ascii_lower_def ascii_digits_def)

lemma loopback_only_x: "\<not> loopback_only ''[x]''"
  by (simp add: loopback_only_def)

text \<open>
  Claim C7 (amended). The claim: for every root, \<^verbatim>\<open>modify_verify_url\<close> gives the empty
  string for the empty string and for \<^verbatim>\<open>None\<close>, without raising. The method has no test
  for either. The empty string is joined to the root, and \<^verbatim>\<open>urljoin(root, "")\<close> is the
  root: under the root \<^verbatim>\<open>https://example.com/shop\<close> the result is that URL, not the empty
  string. On \<^verbatim>\<open>None\<close> the method raises TypeError.
\<close>

theorem modify_verify_url_empty_example:
  "modify_verify_url url_shape loopback_only ''https://example.com/shop'' (Some [])
     = Inr ''https://example.com/shop''
   \<and> modify_verify_url url_shape loopback_only ''https://example.com/shop'' (Some []) \<noteq> Inr []
   \<and> modify_verify_url url_shape loopback_only ''https://example.com/shop'' None = Inl TypeError"
proof -
  have "modify_verify_url url_shape loopback_only ''https://example.com/shop'' (Some [])
     = Inr ''https://example.com/shop''"
    by (simp add: modify_verify_url_def modify_verify_url_exit_def url_shape_empty
        urljoin_empty urlparse_shop url_shape_shop)
  moreover have "modify_verify_url url_shape loopback_only ''https://example.com/shop'' None
     = Inl TypeError"
    by (simp add: modify_verify_url_def modify_verify_url_exit_def)
  ultimately show ?thesis by simp
qed

text \<open>
  Claim C7, as amended: for every root, every validator and every outcome of the library's
  checks of an authority, \<^verbatim>\<open>modify_verify_url\<close> raises TypeError on \<^verbatim>\<open>None\<close>; on the
  empty string (which no validator of URLs accepts) it parses the root and gives scheme,
  \<^verbatim>\<open>://\<close>, authority and path of the root when that string validates, the empty string
  when it does not, and the ValueError of \<^verbatim>\<open>urlparse\<close> when the root does not parse (a
  root with an unbalanced square bracket, or one whose authority fails a check of the
  library, as \<^verbatim>\<open>http://[x]/\<close> does). It is the caller that keeps both kinds of href out
  of the result: the loop of \<^verbatim>\<open>get_all_sublinks_from_soup\<close> skips an anchor whose href is
  empty or absent (line 147) before \<^verbatim>\<open>modify_verify_url\<close> is called.
\<close>

theorem empty_and_absent_href:
  "modify_verify_url valid netloc_ok root' None = Inl TypeError
   \<and> modify_verify_url valid netloc_ok root' (Some []) =
       (if valid [] then Inr []
        else case urlparse netloc_ok root' [] of
               Inl err \<Rightarrow> Inl err
             | Inr parsed_href \<Rightarrow>
                 if valid (url_scheme parsed_href @ ''://'' @ url_netloc parsed_href
                             @ url_path parsed_href)
                 then Inr (url_scheme parsed_href @ ''://'' @ url_netloc parsed_href
                             @ url_path parsed_href)
                 else Inr [])
   \<and> (tag_get a_tag ''href'' = Some [] \<or> tag_get a_tag ''href'' = None \<longrightarrow>
        sublinks_loop valid netloc_ok root' (a_tag # rest) temp_set
          = sublinks_loop valid netloc_ok root' rest temp_set)"
proof (intro conjI impI)
  show "modify_verify_url valid netloc_ok root' None = Inl TypeError"
    by (simp add: modify_verify_url_def modify_verify_url_exit_def)
next
  show "modify_verify_url valid netloc_ok root' (Some []) =
       (if valid [] then Inr []
        else case urlparse netloc_ok root' [] of
               Inl err \<Rightarrow> Inl err
             | Inr parsed_href \<Rightarrow>
                 if valid (url_scheme parsed_href @ ''://'' @ url_netloc parsed_href
                             @ url_path parsed_href)
                 then Inr (url_scheme parsed_href @ ''://'' @ url_netloc parsed_href
                             @ url_path parsed_href)
                 else Inr [])"
    by (simp add: modify_verify_url_def modify_verify_url_exit_def urljoin_empty Let_def
        split: sum.splits)
next
  assume "tag_get a_tag ''href'' = Some [] \<or> tag_get a_tag ''href'' = None"
  then show "sublinks_loop valid netloc_ok root' (a_tag # rest) temp_set
          = sublinks_loop valid netloc_ok root' rest temp_set"
    by (rule sublinks_loop_skip)
qed

text \<open>
  Three roots: one that validates, a relative one that does not, and one that does not
  parse; and the loop over an anchor with an empty href and an anchor without href.
\<close>

theorem empty_and_absent_href_witness:
  "modify_verify_url url_shape loopback_only ''https://example.com/shop'' None = Inl TypeError
   \<and> modify_verify_url url_shape loopback_only ''https://example.com/shop'' (Some [])
       = Inr ''https://example.com/shop''
   \<and> modify_verify_url url_shape loopback_only ''shop'' (Some []) = Inr []
   \<and> modify_verify_url url_shape loopback_only ''http://[x]/'' (Some []) = Inl ValueError
   \<and> sublinks_loop url_shape loopback_only ''https://example.com/shop''
        [Tag ''a'' [(''href'', [])] [], Tag ''a'' [(''name'', ''top'')] []] {} = Inr {}"
proof -
  have a: "tag_get (Tag ''a'' [(''href'', [])] []) ''href'' = Some []
           \<or> tag_get (Tag ''a'' [(''href'', [])] []) ''href'' = None"
    by simp
  have b: "tag_get (Tag ''a'' [(''name'', ''top'')] []) ''href'' = Some []
           \<or> tag_get (Tag ''a'' [(''name'', ''top'')] []) ''href'' = None"
    by simp
  have "sublinks_loop url_shape loopback_only ''https://example.com/shop''
        [Tag ''a'' [(''href'', [])] [], Tag ''a'' [(''name'', ''top'')] []] {}
      = sublinks_loop url_shape loopback_only ''https://example.com/shop''
        [Tag ''a'' [(''name'', ''top'')] []] {}"
    using empty_and_absent_href[of url_shape loopback_only "''https://example.com/shop''"
        "Tag ''a'' [(''href'', [])] []" "[Tag ''a'' [(''name'', ''top'')] []]" "{}"] a
    by blast
  also have "\<dots> = sublinks_loop url_shape loopback_only ''https://example.com/shop'' [] {}"
    using empty_and_absent_href[of url_shape loopback_only "''https://example.com/shop''"
        "Tag ''a'' [(''name'', ''top'')] []" "[]" "{}"] b
    by blast
  finally have loop: "sublinks_loop url_shape loopback_only ''https://example.com/shop''
        [Tag ''a'' [(''href'', [])] [], Tag ''a'' [(''name'', ''top'')] []] {} = Inr {}"
    by simp
  have e1: "modify_verify_url url_shape loopback_only ''https://example.com/shop'' (Some [])
       = Inr ''https://example.com/shop''"
    using empty_and_absent_href[of url_shape loopback_only "''https://example.com/shop''"]
    by (simp add: url_shape_empty urlparse_shop url_shape_shop)
  have e2: "modify_verify_url url_shape loopback_only ''shop'' (Some []) = Inr []"
    using empty_and_absent_href[of url_shape loopback_only "''shop''"]
    by (simp add: url_shape_empty urlparse_relative url_shape_relative)
  have e3: "modify_verify_url url_shape loopback_only ''https://example.com/shop'' None
       = Inl TypeError"
    using empty_and_absent_href[of url_shape loopback_only "''https://example.com/shop''"]
    by blast
  have e4: "modify_verify_url url_shape loopback_only ''http://[x]/'' (Some []) = Inl ValueError"
    using empty_and_absent_href[of url_shape loopback_only "''http://[x]/''"]
    by (simp add: url_shape_empty urlparse_bracketed[of loopback_only, OF loopback_only_x])
  from loop e1 e2 e3 e4 show ?thesis by blast
qed

subsection \<open>Rounding to a float\<close>

text \<open>
  \<open>ilog2\<close> is the exponent: the power of two at or below a positive number. From it,
  the numbers that \<open>fl\<close> leaves as they are, the two roundings that matter in the loop,
  and a bound.
\<close>

lemma bitlen_rat_bounds:
  assumes "0 < a"
  shows "power_int 2 (bitlen a - 1) \<le> (of_int a :: rat)" and "(of_int a :: rat) < power_int 2 (bitlen a)"
proof -
  from bitlen_bounds[OF assms] have lo: "2 ^ nat (bitlen a - 1) \<le> a" and hi: "a < 2 ^ nat (bitlen a)"
    by auto
  have pos: "1 \<le> bitlen a" using assms by (auto simp: bitlen_alt_def)
  have "(of_int (2 ^ nat (bitlen a - 1)) :: rat) \<le> of_int a" using lo by (simp only: of_int_le_iff)
  then show "power_int 2 (bitlen a - 1) \<le> (of_int a :: rat)"
    using pos by (simp add: power_int_def)
  have "(of_int a :: rat) < of_int (2 ^ nat (bitlen a))" using hi by (simp only: of_int_less_iff)
  then show "(of_int a :: rat) < power_int 2 (bitlen a)"
    using pos by (simp add: power_int_def)
qed

lemma ilog2_bounds:
  assumes "0 < x"
  shows "power_int 2 (ilog2 x) \<le> x \<and> x < power_int 2 (ilog2 x + 1)"
proof -
  obtain a b where q: "quotient_of x = (a, b)" by (cases "quotient_of x")
  then have b: "0 < b" by (rule quotient_of_denom_pos)
  from q have x: "x = of_int a / of_int b" by (rule quotient_of_div)
  with assms b have a: "0 < a" by (simp add: zero_less_divide_iff)
  define d where "d = bitlen a - bitlen b"
  note A = bitlen_rat_bounds[OF a] and B = bitlen_rat_bounds[OF b]
  have bpos: "(0::rat) < of_int b" using b by simp
  have "x < power_int 2 (bitlen a) / power_int 2 (bitlen b - 1)"
    unfolding x using A(2) B(1) a
    by (intro frac_less) auto
  also have "\<dots> = power_int 2 (d + 1)"
    by (simp add: d_def power_int_diff[symmetric] algebra_simps)
  finally have up: "x < power_int 2 (d + 1)" .
  have "power_int 2 (bitlen a - 1) / power_int 2 (bitlen b) < x"
    unfolding x using A(1) B(2) bpos a
    by (intro frac_less2) auto
  moreover have "power_int 2 (bitlen a - 1) / power_int 2 (bitlen b) = (power_int 2 (d - 1) :: rat)"
    by (simp add: d_def power_int_diff[symmetric] algebra_simps)
  ultimately have lo: "power_int 2 (d - 1) < x" by simp
  show ?thesis
  proof (cases "power_int 2 d \<le> x")
    case True
    then have "ilog2 x = d" by (simp add: ilog2_def q d_def Let_def)
    with True up show ?thesis by simp
  next
    case False
    then have "ilog2 x = d - 1" by (simp add: ilog2_def q d_def Let_def)
    with False lo show ?thesis by simp
  qed
qed

lemma ilog2_unique:
  assumes "0 < x" and "power_int 2 e \<le> x" and "x < power_int 2 (e + 1)"
  shows "ilog2 x = e"
proof -
  from ilog2_bounds[OF assms(1)]
  have lo: "power_int 2 (ilog2 x) \<le> x" and hi: "x < power_int 2 (ilog2 x + 1)" by auto
  have "(power_int 2 (ilog2 x) :: rat) < power_int 2 (e + 1)" using lo assms(3) by simp
  then have "ilog2 x < e + 1"
    by (metis power_int_increasing not_less one_le_numeral)
  moreover have "(power_int 2 e :: rat) < power_int 2 (ilog2 x + 1)" using hi assms(2) by simp
  then have "e < ilog2 x + 1"
    by (metis power_int_increasing not_less one_le_numeral)
  ultimately show ?thesis by simp
qed

lemma round_half_even_of_int: "round_half_even (of_int m) = m"
  by (simp add: round_half_even_def)


lemma fl_pos:
  assumes "0 < x"
  shows "fl x = of_int (round_half_even (x / power_int 2 (max (ilog2 x) (- 1022) - 52)))
                  * power_int 2 (max (ilog2 x) (- 1022) - 52)"
  using assms by (simp add: fl_def Let_def)

lemma fl_exact:
  assumes "0 < x" and "power_int 2 e \<le> x" and "x < power_int 2 (e + 1)" and "- 1022 \<le> e"
    and "x = of_int m * power_int 2 (e - 52)"
  shows "fl x = x"
proof -
  have il: "max (ilog2 x) (- 1022) = e" using ilog2_unique[OF assms(1-3)] assms(4) by simp
  have nz: "(power_int 2 (e - 52) :: rat) \<noteq> 0" by simp
  have u: "x / power_int 2 (e - 52) = of_int m"
    using nz by (subst assms(5)) simp
  have "fl x = of_int (round_half_even (x / power_int 2 (e - 52))) * power_int 2 (e - 52)"
    unfolding fl_pos[OF assms(1)] il ..
  also have "\<dots> = of_int m * power_int 2 (e - 52)"
    by (simp only: u round_half_even_of_int)
  finally show ?thesis using assms(5) by simp
qed

lemma power_int_neg_nat: "(power_int 2 (- int k) :: rat) = 1 / 2 ^ k"
  by (simp add: power_int_minus_divide)

lemma fl_pow2:
  assumes "k \<le> 1022"
  shows "fl (1 / 2 ^ k) = 1 / 2 ^ k"
proof (rule fl_exact[where e = "- int k" and m = "2 ^ 52"])
  show "(0::rat) < 1 / 2 ^ k" by simp
  show "power_int 2 (- int k) \<le> (1 / 2 ^ k :: rat)" by (simp add: power_int_neg_nat)
  have "(power_int 2 (- int k) :: rat) < power_int 2 (- int k + 1)"
    by (rule power_int_strict_increasing) auto
  then show "(1 / 2 ^ k :: rat) < power_int 2 (- int k + 1)" by (simp add: power_int_neg_nat)
  show "- 1022 \<le> - int k" using assms by simp
  have "(of_int (2 ^ 52) :: rat) * power_int 2 (- int k - 52) = power_int 2 52 * power_int 2 (- int k - 52)"
    by simp
  also have "\<dots> = power_int 2 (52 + (- int k - 52))"
    by (rule power_int_add[symmetric]) simp
  also have "\<dots> = 1 / 2 ^ k" by (simp add: power_int_neg_nat)
  finally show "(1 / 2 ^ k :: rat) = of_int (2 ^ 52) * power_int 2 (- int k - 52)" by simp
qed

lemma fl_one_minus_pow2:
  assumes "1 \<le> k" and "k \<le> 53"
  shows "fl (1 - 1 / 2 ^ k) = 1 - 1 / 2 ^ k"
proof (rule fl_exact[where e = "- 1" and m = "2 ^ 53 - 2 ^ (53 - k)"])
  have half: "(1 / 2 ^ k :: rat) \<le> 1 / 2"
    using assms(1) power_increasing[of 1 k "2::rat"] by (simp add: field_simps)
  have pos: "(0::rat) < 1 / 2 ^ k" by simp
  show "(0::rat) < 1 - 1 / 2 ^ k" using half by simp
  show "power_int 2 (- 1) \<le> (1 - 1 / 2 ^ k :: rat)" using half by (simp add: power_int_minus_divide)
  show "(1 - 1 / 2 ^ k :: rat) < power_int 2 (- 1 + 1)" using pos by simp
  show "- 1022 \<le> (- 1 :: int)" by simp
  have split: "(2 ^ 53 :: rat) = 2 ^ (53 - k) * 2 ^ k"
    using assms(2) by (simp add: power_add[symmetric])
  have "(of_int (2 ^ 53 - 2 ^ (53 - k)) :: rat) * power_int 2 (- 1 - 52)
      = (2 ^ 53 - 2 ^ (53 - k)) / 2 ^ 53"
    by (simp add: power_int_minus_divide)
  also have "\<dots> = 1 - 2 ^ (53 - k) / 2 ^ 53" by (simp add: diff_divide_distrib)
  also have "(2 ^ (53 - k) / 2 ^ 53 :: rat) = 1 / 2 ^ k"
    by (subst split) simp
  finally show "(1 - 1 / 2 ^ k :: rat) = of_int (2 ^ 53 - 2 ^ (53 - k)) * power_int 2 (- 1 - 52)"
    by simp
qed









text \<open>
  Rounding commutes with the sign, and a float is rounded to itself: rounding twice is
  rounding once. Every integer of magnitude up to \<open>2\<^sup>5\<^sup>3\<close> is a float.
\<close>

lemma fl_0: "fl 0 = 0"
  by (simp add: fl_def)

lemma fl_minus: "fl (- x) = - fl x"
  by (simp add: fl_def Let_def)





lemma fl_of_int_pos:
  assumes "0 < h" and "h \<le> 2 ^ 53"
  shows "fl (of_int h) = of_int h"
proof -
  define x :: rat where "x = of_int h"
  define e where "e = ilog2 x"
  have xpos: "0 < x" using assms(1) by (simp add: x_def)
  from ilog2_bounds[OF xpos]
  have lo: "power_int 2 e \<le> x" and hi: "x < power_int 2 (e + 1)" by (auto simp: e_def)
  have "(1::rat) \<le> x" using assms(1) by (simp add: x_def)
  with hi have "(power_int 2 0 :: rat) < power_int 2 (e + 1)" by simp
  then have "0 < e + 1"
    by (metis power_int_increasing not_less one_le_numeral)
  then have e0: "0 \<le> e" by simp
  have "x \<le> power_int 2 53" using assms(2)
    unfolding x_def by (metis of_int_le_iff of_int_numeral of_int_power power_int_numeral)
  with lo have "(power_int 2 e :: rat) \<le> power_int 2 53" by simp
  then have e53: "e \<le> 53"
    by (metis power_int_strict_increasing not_less one_less_numeral_iff semiring_norm(76))
  have "fl x = x"
  proof (cases "e \<le> 52")
    case True
    define k where "k = nat (52 - e)"
    have k: "int k = 52 - e" using True by (simp add: k_def)
    have "(of_int (h * 2 ^ k) :: rat) * power_int 2 (e - 52) = x * (power_int 2 (int k) * power_int 2 (e - 52))"
      by (simp add: x_def)
    also have "(power_int 2 (int k) :: rat) * power_int 2 (e - 52) = power_int 2 (int k + (e - 52))"
      by (rule power_int_add[symmetric]) simp
    also have "int k + (e - 52) = 0" using k by simp
    finally have m: "x = of_int (h * 2 ^ k) * power_int 2 (e - 52)" by simp
    from e0 have e_ge: "- 1022 \<le> e" by simp
    show ?thesis by (rule fl_exact[OF xpos lo hi e_ge m])
  next
    case False
    with e53 have e: "e = 53" by simp
    from lo have "power_int 2 53 \<le> x" by (simp only: e)
    with \<open>x \<le> power_int 2 53\<close> have xv: "x = power_int 2 53" by simp
    have "fl (power_int 2 53) = power_int 2 53"
      by (rule fl_exact[where e = 53 and m = "2 ^ 52"]) simp_all
    then show ?thesis by (simp only: xv)
  qed
  then show ?thesis by (simp only: x_def)
qed

lemma fl_of_int:
  assumes "\<bar>h\<bar> \<le> 2 ^ 53"
  shows "fl (of_int h) = of_int h"
proof -
  consider "h = 0" | "0 < h" | "0 < - h" by linarith
  then show ?thesis
  proof cases
    case 1
    then show ?thesis by (simp add: fl_0)
  next
    case 2
    with assms show ?thesis by (intro fl_of_int_pos) simp_all
  next
    case 3
    with assms have "fl (of_int (- h)) = of_int (- h)" by (intro fl_of_int_pos) simp_all
    then show ?thesis by (simp add: fl_minus)
  qed
qed

lemma fl_half: "fl (1 / 2) = 1 / 2"
  using fl_pow2[of 1] by simp

lemma fl_1000: "fl 1000 = 1000"
  using fl_of_int[of 1000] by simp

lemma fl_500: "fl 500 = 500"
  using fl_of_int[of 500] by simp

lemma fl_quarter: "fl (1 / 4) = 1 / 4"
  using fl_pow2[of 2] by simp

lemma fl_three_quarters: "fl (3 / 4) = 3 / 4"
  using fl_one_minus_pow2[of 2] by simp

subsection \<open>_scroll_down_pages\<close>

lemma scroll_pass_eq:
  "scroll_pass wd st =
     (if pass_signal wd st = sc_r st
      then Break (st\<lparr> sc_counter := fl (sc_counter st / 2),
                        sc_multiplier := fl (sc_multiplier st + fl (sc_counter st / 2)),
                        sc_session := wd_sleep wd 1
                          (wd_scroll_to wd (sc_start_y st)
                             (fl (fl (of_int (wd_scroll_height wd (sc_session st)))
                                    * fl (sc_multiplier st + fl (sc_counter st / 2))))
                             (sc_session st)) \<rparr>)
      else Continue \<lparr> sc_counter = fl (sc_counter st / 2),
                      sc_multiplier = fl (sc_multiplier st + fl (sc_counter st / 2)),
                      sc_r = pass_signal wd st,
                      sc_start_y = fl (fl (of_int (wd_scroll_height wd (sc_session st)))
                                         * fl (sc_multiplier st + fl (sc_counter st / 2))),
                      sc_session = wd_sleep wd 1
                          (wd_scroll_to wd (sc_start_y st)
                             (fl (fl (of_int (wd_scroll_height wd (sc_session st)))
                                    * fl (sc_multiplier st + fl (sc_counter st / 2))))
                             (sc_session st)) \<rparr>)"
  by (simp add: scroll_pass_def pass_signal_def Let_def)

lemma scroll_pass_Break_iff: "(\<exists>t. scroll_pass wd st = Break t) = (pass_signal wd st = sc_r st)"
  by (simp add: scroll_pass_eq)

lemma scroll_pass_Continue:
  assumes "scroll_pass wd st = Continue t"
  shows "pass_signal wd st \<noteq> sc_r st" and "sc_r t = pass_signal wd st"
  using assms by (auto simp: scroll_pass_eq split: if_splits)


text \<open>The passes can also be counted from the front.\<close>

lemma after_passes_Suc_front:
  "after_passes wd st (Suc n) =
     (case scroll_pass wd st of Break st' \<Rightarrow> None | Continue st' \<Rightarrow> after_passes wd st' n)"
proof (induction n)
  case 0
  show ?case by (simp split: pass.splits)
next
  case (Suc n)
  have "after_passes wd st (Suc (Suc n)) =
          (case after_passes wd st (Suc n) of
             None \<Rightarrow> None
           | Some st' \<Rightarrow> (case scroll_pass wd st' of Break st'' \<Rightarrow> None | Continue st'' \<Rightarrow> Some st''))"
    by (rule after_passes.simps(2))
  also have "\<dots> =
          (case scroll_pass wd st of Break st' \<Rightarrow> None | Continue st' \<Rightarrow> after_passes wd st' (Suc n))"
    unfolding Suc.IH by (simp split: pass.splits)
  finally show ?case .
qed

lemma scroll_loop_after_passes:
  assumes "after_passes wd st n = Some s" and "scroll_pass wd s = Break t"
  shows "scroll_loop wd st = Some t"
  using assms
proof (induction n arbitrary: st)
  case 0
  then show ?case by (subst scroll_loop.simps) simp
next
  case (Suc n)
  from Suc.prems(1) obtain st' where c: "scroll_pass wd st = Continue st'"
    and a: "after_passes wd st' n = Some s"
    unfolding after_passes_Suc_front by (auto split: pass.splits)
  from Suc.IH[OF a Suc.prems(2)] have "scroll_loop wd st' = Some t" .
  with c show ?case by (subst scroll_loop.simps) simp
qed

lemma scroll_loop_returns:
  assumes "scroll_loop wd st = Some t"
  shows "\<exists>n s. after_passes wd st n = Some s \<and> scroll_pass wd s = Break t"
proof (rule scroll_loop.raw_induct[where P = "\<lambda>wd st t.
          \<exists>n s. after_passes wd st n = Some s \<and> scroll_pass wd s = Break t", OF _ assms])
  fix loop :: "('a, 'b) webdriver \<Rightarrow> 'a scroll_state \<Rightarrow> 'a scroll_state option"
    and wd st t
  assume IH: "\<And>wd st t. loop wd st = Some t \<Longrightarrow>
           \<exists>n s. after_passes wd st n = Some s \<and> scroll_pass wd s = Break t"
  assume body: "(case scroll_pass wd st of Break st' \<Rightarrow> Some st' | Continue st' \<Rightarrow> loop wd st')
                  = Some t"
  show "\<exists>n s. after_passes wd st n = Some s \<and> scroll_pass wd s = Break t"
  proof (cases "scroll_pass wd st")
    case (Break st')
    with body have "scroll_pass wd st = Break t" by simp
    then have "after_passes wd st 0 = Some st \<and> scroll_pass wd st = Break t" by simp
    then show ?thesis by blast
  next
    case (Continue st')
    with body have "loop wd st' = Some t" by simp
    from IH[OF this] obtain n s where a: "after_passes wd st' n = Some s"
      and b: "scroll_pass wd s = Break t" by blast
    from a Continue have "after_passes wd st (Suc n) = Some s"
      unfolding after_passes_Suc_front by simp
    with b show ?thesis by blast
  qed
qed


text \<open>The passes before a pass that was reached all read a new count.\<close>

lemma after_passes_earlier:
  assumes "after_passes wd st n = Some u" and "m < n"
  shows "\<exists>v. after_passes wd st m = Some v \<and> pass_signal wd v \<noteq> sc_r v"
  using assms
proof (induction n arbitrary: u)
  case 0
  then show ?case by simp
next
  case (Suc n)
  from Suc.prems(1) obtain w where a: "after_passes wd st n = Some w"
    and c: "scroll_pass wd w = Continue u"
    by (auto split: option.splits pass.splits)
  show ?case
  proof (cases "m = n")
    case True
    with a scroll_pass_Continue(1)[OF c] show ?thesis by simp
  next
    case False
    with Suc.prems(2) have "m < n" by simp
    from Suc.IH[OF a this] show ?thesis .
  qed
qed

text \<open>The loop runs for ever exactly when every pass reads a new count.\<close>

lemma scroll_loop_never_returns:
  "(scroll_loop wd st = None)
     = (\<forall>n. \<exists>v. after_passes wd st n = Some v \<and> pass_signal wd v \<noteq> sc_r v)"
proof
  assume none: "scroll_loop wd st = None"
  have new_count: "pass_signal wd v \<noteq> sc_r v" if a: "after_passes wd st n = Some v" for n v
  proof
    assume "pass_signal wd v = sc_r v"
    then have "\<exists>t. scroll_pass wd v = Break t" by (simp only: scroll_pass_Break_iff)
    then obtain t where "scroll_pass wd v = Break t" ..
    from scroll_loop_after_passes[OF a this] none show False by simp
  qed
  have reached: "\<exists>v. after_passes wd st n = Some v" for n
  proof (induction n)
    case 0
    show ?case by simp
  next
    case (Suc n)
    then obtain v where a: "after_passes wd st n = Some v" ..
    from new_count[OF a] have "\<not> (\<exists>t. scroll_pass wd v = Break t)"
      by (simp only: scroll_pass_Break_iff not_False_eq_True)
    then obtain v' where "scroll_pass wd v = Continue v'"
      by (cases "scroll_pass wd v") auto
    with a show ?case by simp
  qed
  show "\<forall>n. \<exists>v. after_passes wd st n = Some v \<and> pass_signal wd v \<noteq> sc_r v"
  proof
    fix n
    from reached[of n] obtain v where a: "after_passes wd st n = Some v" ..
    with new_count[OF a] show "\<exists>v. after_passes wd st n = Some v \<and> pass_signal wd v \<noteq> sc_r v"
      by blast
  qed
next
  assume all: "\<forall>n. \<exists>v. after_passes wd st n = Some v \<and> pass_signal wd v \<noteq> sc_r v"
  show "scroll_loop wd st = None"
  proof (rule ccontr)
    assume "scroll_loop wd st \<noteq> None"
    then obtain t where "scroll_loop wd st = Some t" by blast
    from scroll_loop_returns[OF this] obtain n u where a: "after_passes wd st n = Some u"
      and b: "scroll_pass wd u = Break t" by blast
    from b have "\<exists>t. scroll_pass wd u = Break t" ..
    then have "pass_signal wd u = sc_r u" by (simp only: scroll_pass_Break_iff)
    moreover from all a have "pass_signal wd u \<noteq> sc_r u" by (metis option.inject)
    ultimately show False by simp
  qed
qed

text \<open>
  Claim C5. The count recorded when the loop is entered is the one read after the page
  was loaded. A pass leaves the loop exactly when the count it reads equals the recorded
  one; otherwise the count read becomes the recorded one and the loop goes on. So
  \<^verbatim>\<open>_scroll_down_pages\<close> returns exactly when some pass, reached through passes that all
  read a new count, reads the recorded count again, and it returns the state of that
  pass; it runs for ever exactly when every pass reads a new count (the loop has no
  bound of its own).
\<close>

theorem scroll_down_pages_stops_on_equal_signal:
  "sc_r (scroll_start wd s webpage)
     = wd_performance_entries wd (sc_session (scroll_start wd s webpage))
   \<and> (\<exists>t. scroll_pass wd st = Break t) = (pass_signal wd st = sc_r st)
   \<and> (scroll_pass wd st = Continue t \<longrightarrow>
         pass_signal wd st \<noteq> sc_r st \<and> sc_r t = pass_signal wd st)
   \<and> (scroll_loop wd st = Some t) =
       (\<exists>n u. after_passes wd st n = Some u \<and> pass_signal wd u = sc_r u
              \<and> scroll_pass wd u = Break t)
   \<and> (scroll_down_pages wd s webpage = Some t) =
       (\<exists>n u. after_passes wd (scroll_start wd s webpage) n = Some u
              \<and> (\<forall>m<n. \<exists>v. after_passes wd (scroll_start wd s webpage) m = Some v
                             \<and> pass_signal wd v \<noteq> sc_r v)
              \<and> pass_signal wd u = sc_r u \<and> scroll_pass wd u = Break t)
   \<and> (scroll_down_pages wd s webpage = None) =
       (\<forall>n. \<exists>v. after_passes wd (scroll_start wd s webpage) n = Some v
                  \<and> pass_signal wd v \<noteq> sc_r v)"
proof (intro conjI impI)
  show "sc_r (scroll_start wd s webpage)
     = wd_performance_entries wd (sc_session (scroll_start wd s webpage))"
    by (simp add: scroll_start_def Let_def)
next
  show "(\<exists>t. scroll_pass wd st = Break t) = (pass_signal wd st = sc_r st)"
    by (rule scroll_pass_Break_iff)
next
  assume "scroll_pass wd st = Continue t"
  then show "pass_signal wd st \<noteq> sc_r st" by (rule scroll_pass_Continue)
next
  assume "scroll_pass wd st = Continue t"
  then show "sc_r t = pass_signal wd st" by (rule scroll_pass_Continue)
next
  show "(scroll_loop wd st = Some t) =
       (\<exists>n u. after_passes wd st n = Some u \<and> pass_signal wd u = sc_r u
              \<and> scroll_pass wd u = Break t)"
  proof
    assume "scroll_loop wd st = Some t"
    from scroll_loop_returns[OF this] obtain n u where a: "after_passes wd st n = Some u"
      and b: "scroll_pass wd u = Break t" by blast
    from b have "pass_signal wd u = sc_r u" using scroll_pass_Break_iff by blast
    with a b show "\<exists>n u. after_passes wd st n = Some u \<and> pass_signal wd u = sc_r u
              \<and> scroll_pass wd u = Break t" by blast
  next
    assume "\<exists>n u. after_passes wd st n = Some u \<and> pass_signal wd u = sc_r u
              \<and> scroll_pass wd u = Break t"
    then show "scroll_loop wd st = Some t" using scroll_loop_after_passes by blast
  qed
next
  let ?st = "scroll_start wd s webpage"
  show "(scroll_down_pages wd s webpage = Some t) =
       (\<exists>n u. after_passes wd ?st n = Some u
              \<and> (\<forall>m<n. \<exists>v. after_passes wd ?st m = Some v \<and> pass_signal wd v \<noteq> sc_r v)
              \<and> pass_signal wd u = sc_r u \<and> scroll_pass wd u = Break t)"
  proof
    assume "scroll_down_pages wd s webpage = Some t"
    then have "scroll_loop wd ?st = Some t" by (simp only: scroll_down_pages_def)
    from scroll_loop_returns[OF this] obtain n u where a: "after_passes wd ?st n = Some u"
      and b: "scroll_pass wd u = Break t" by blast
    from b have c: "pass_signal wd u = sc_r u" using scroll_pass_Break_iff by blast
    have "\<forall>m<n. \<exists>v. after_passes wd ?st m = Some v \<and> pass_signal wd v \<noteq> sc_r v"
      using after_passes_earlier[OF a] by blast
    with a b c show "\<exists>n u. after_passes wd ?st n = Some u
              \<and> (\<forall>m<n. \<exists>v. after_passes wd ?st m = Some v \<and> pass_signal wd v \<noteq> sc_r v)
              \<and> pass_signal wd u = sc_r u \<and> scroll_pass wd u = Break t" by blast
  next
    assume "\<exists>n u. after_passes wd ?st n = Some u
              \<and> (\<forall>m<n. \<exists>v. after_passes wd ?st m = Some v \<and> pass_signal wd v \<noteq> sc_r v)
              \<and> pass_signal wd u = sc_r u \<and> scroll_pass wd u = Break t"
    then obtain n u where "after_passes wd ?st n = Some u" and "scroll_pass wd u = Break t"
      by blast
    then have "scroll_loop wd ?st = Some t" by (rule scroll_loop_after_passes)
    then show "scroll_down_pages wd s webpage = Some t" by (simp only: scroll_down_pages_def)
  qed
next
  show "(scroll_down_pages wd s webpage = None) =
       (\<forall>n. \<exists>v. after_passes wd (scroll_start wd s webpage) n = Some v
                  \<and> pass_signal wd v \<noteq> sc_r v)"
    unfolding scroll_down_pages_def by (rule scroll_loop_never_returns)
qed

text \<open>The scripted page: how the method starts on it, and what one pass does.\<close>

lemma scripted_start:
  "scroll_start scripted_page (c # cs) webpage
     = \<lparr> sc_counter = 1, sc_multiplier = 0, sc_r = c, sc_start_y = 0, sc_session = c # cs \<rparr>"
  by (simp add: scroll_start_def scripted_page_def optimize_selenium_driver_def Let_def)

lemma scripted_signal:
  "pass_signal scripted_page
     \<lparr> sc_counter = c, sc_multiplier = m, sc_r = r, sc_start_y = y, sc_session = a # b # cs \<rparr> = b"
  by (simp add: pass_signal_def scripted_page_def)

lemma scripted_pass:
  "scroll_pass scripted_page
     \<lparr> sc_counter = c, sc_multiplier = m, sc_r = r, sc_start_y = y, sc_session = a # b # cs \<rparr>
   = (if b = r
      then Break \<lparr> sc_counter = fl (c / 2), sc_multiplier = fl (m + fl (c / 2)), sc_r = r,
                   sc_start_y = y, sc_session = b # cs \<rparr>
      else Continue \<lparr> sc_counter = fl (c / 2), sc_multiplier = fl (m + fl (c / 2)), sc_r = b,
                      sc_start_y = fl (fl 1000 * fl (m + fl (c / 2))), sc_session = b # cs \<rparr>)"
  by (simp add: scroll_pass_def scripted_page_def Let_def)

text \<open>The counts 3, 5, 5: the first pass reads a new count, the second reads it again.\<close>

lemma scripted_first_pass:
  "scroll_pass scripted_page
     \<lparr> sc_counter = 1, sc_multiplier = 0, sc_r = 3, sc_start_y = 0, sc_session = [3, 5, 5] \<rparr>
   = Continue \<lparr> sc_counter = 1 / 2, sc_multiplier = 1 / 2, sc_r = 5, sc_start_y = 500,
                 sc_session = [5, 5] \<rparr>"
  by (simp add: scripted_pass fl_half fl_1000 fl_500)

lemma scripted_second_pass:
  "scroll_pass scripted_page
     \<lparr> sc_counter = 1 / 2, sc_multiplier = 1 / 2, sc_r = 5, sc_start_y = 500,
       sc_session = [5, 5] \<rparr>
   = Break \<lparr> sc_counter = 1 / 4, sc_multiplier = 3 / 4, sc_r = 5, sc_start_y = 500,
              sc_session = [5] \<rparr>"
  by (simp add: scripted_pass fl_quarter fl_three_quarters)

lemma scripted_after_one_pass:
  "after_passes scripted_page (scroll_start scripted_page [3, 5, 5] webpage) (Suc 0)
     = Some \<lparr> sc_counter = 1 / 2, sc_multiplier = 1 / 2, sc_r = 5, sc_start_y = 500,
              sc_session = [5, 5] \<rparr>"
  by (simp add: scripted_start scripted_first_pass)

text \<open>
  The example of the specification, the counts 12, 12: the first count is recorded before
  the loop; the first pass scrolls, reads the second count, finds it equal and leaves the
  loop. With the counts 3, 5, 5 the first pass reads a new count, records it and the loop
  goes on; the second pass reads 5 again and the method returns.
\<close>

theorem scroll_down_pages_stops_on_equal_signal_witness:
  "scroll_down_pages scripted_page [12, 12] ''https://example.com/feed''
     = Some \<lparr> sc_counter = 1 / 2, sc_multiplier = 1 / 2, sc_r = 12, sc_start_y = 0,
              sc_session = [12] \<rparr>
   \<and> scroll_down_pages scripted_page [3, 5, 5] ''https://example.com/feed''
     = Some \<lparr> sc_counter = 1 / 4, sc_multiplier = 3 / 4, sc_r = 5, sc_start_y = 500,
              sc_session = [5] \<rparr>
   \<and> sc_r (scroll_start scripted_page [3, 5, 5] ''https://example.com/feed'') = 3"
proof (intro conjI)
  let ?url = "''https://example.com/feed''"
  let ?st = "\<lparr> sc_counter = 1, sc_multiplier = 0, sc_r = 12, sc_start_y = 0,
               sc_session = [12, 12::nat] \<rparr>"
  let ?t = "\<lparr> sc_counter = 1 / 2, sc_multiplier = 1 / 2, sc_r = 12, sc_start_y = 0,
              sc_session = [12::nat] \<rparr>"
  have "\<exists>n u. after_passes scripted_page (scroll_start scripted_page [12, 12] ?url) n = Some u
          \<and> (\<forall>m<n. \<exists>v. after_passes scripted_page (scroll_start scripted_page [12, 12] ?url) m
                            = Some v \<and> pass_signal scripted_page v \<noteq> sc_r v)
          \<and> pass_signal scripted_page u = sc_r u \<and> scroll_pass scripted_page u = Break ?t"
  proof (intro exI conjI)
    show "after_passes scripted_page (scroll_start scripted_page [12, 12] ?url) 0 = Some ?st"
      by (simp add: scripted_start)
    show "\<forall>m<0. \<exists>v. after_passes scripted_page (scroll_start scripted_page [12, 12] ?url) m
                            = Some v \<and> pass_signal scripted_page v \<noteq> sc_r v"
      by simp
    show "pass_signal scripted_page ?st = sc_r ?st" by (simp add: scripted_signal)
    show "scroll_pass scripted_page ?st = Break ?t" by (simp add: scripted_pass fl_half)
  qed
  then show "scroll_down_pages scripted_page [12, 12] ?url = Some ?t"
    by (rule scroll_down_pages_stops_on_equal_signal[where wd = scripted_page and s = "[12, 12]" and webpage = ?url and t = ?t,
          THEN conjunct2, THEN conjunct2, THEN conjunct2, THEN conjunct2, THEN conjunct1,
          THEN iffD2])
next
  let ?url = "''https://example.com/feed''"
  let ?s0 = "\<lparr> sc_counter = 1, sc_multiplier = 0, sc_r = 3, sc_start_y = 0,
               sc_session = [3, 5, 5::nat] \<rparr>"
  let ?s1 = "\<lparr> sc_counter = 1 / 2, sc_multiplier = 1 / 2, sc_r = 5, sc_start_y = 500,
               sc_session = [5, 5::nat] \<rparr>"
  let ?t = "\<lparr> sc_counter = 1 / 4, sc_multiplier = 3 / 4, sc_r = 5, sc_start_y = 500,
              sc_session = [5::nat] \<rparr>"
  have "\<exists>n u. after_passes scripted_page (scroll_start scripted_page [3, 5, 5] ?url) n = Some u
          \<and> (\<forall>m<n. \<exists>v. after_passes scripted_page (scroll_start scripted_page [3, 5, 5] ?url) m
                            = Some v \<and> pass_signal scripted_page v \<noteq> sc_r v)
          \<and> pass_signal scripted_page u = sc_r u \<and> scroll_pass scripted_page u = Break ?t"
  proof (intro exI conjI)
    show "after_passes scripted_page (scroll_start scripted_page [3, 5, 5] ?url) (Suc 0) = Some ?s1"
      by (rule scripted_after_one_pass)
    show "\<forall>m<Suc 0. \<exists>v. after_passes scripted_page (scroll_start scripted_page [3, 5, 5] ?url) m
                            = Some v \<and> pass_signal scripted_page v \<noteq> sc_r v"
      by (simp add: scripted_start scripted_signal)
    show "pass_signal scripted_page ?s1 = sc_r ?s1" by (simp add: scripted_signal)
    show "scroll_pass scripted_page ?s1 = Break ?t" by (rule scripted_second_pass)
  qed
  then show "scroll_down_pages scripted_page [3, 5, 5] ?url = Some ?t"
    by (rule scroll_down_pages_stops_on_equal_signal[where wd = scripted_page and s = "[3, 5, 5]" and webpage = ?url and t = ?t,
          THEN conjunct2, THEN conjunct2, THEN conjunct2, THEN conjunct2, THEN conjunct1,
          THEN iffD2])
next
  show "sc_r (scroll_start scripted_page [3, 5, 5] ''https://example.com/feed'') = 3"
    by (simp add: scripted_start)
qed

subsection \<open>The multiplier\<close>













end
